theory Spec2Isabelle
  imports Complex_Main "HOL-Library.Product_Lexorder"
begin

section \<open>Data model of \<open>swift_cells.py\<close>\<close>

text \<open>
  Exceptions of the Python source are values of the following type; a fallible
  operation returns \<open>error + 'a\<close> with \<open>Inl\<close> for the raised exception.
\<close>

datatype error = KeyError | IndexError | OSError | ZeroDivisionError | AssertionError
  | AttributeError | TypeError

text \<open>
  The fields \<open>count\<close> and \<open>offset\<close> of \<open>swift_cell_t\<close> are \<open>np.int64\<close>. They are
  modelled as integers, and every addition the source performs on them is the wrapping
  two's-complement addition \<open>add64\<close>.
\<close>

definition wrap64 :: "int \<Rightarrow> int" where
  "wrap64 x = (x + 2 ^ 63) mod 2 ^ 64 - 2 ^ 63"

definition add64 :: "int \<Rightarrow> int \<Rightarrow> int" where
  "add64 a b = wrap64 (a + b)"

text \<open>
  \<open>swift_cell_t\<close>: one cell of the grid for one particle type. The field \<open>file\<close> of the
  source is called \<open>file_nr\<close> here.
\<close>

record swift_cell =
  centre :: "real \<times> real \<times> real"
  count :: int
  offset :: int
  file_nr :: int
  order :: int

section \<open>The merge pass of \<open>prepare_read\<close>\<close>

text \<open>
  The test of the merge loop on two neighbouring cells: same file, the second one starts
  where the first one ends, and the merged count does not exceed \<open>max_size\<close>.
\<close>

definition mergeable :: "int \<Rightarrow> swift_cell \<Rightarrow> swift_cell \<Rightarrow> bool" where
  "mergeable max_sz cell1 cell2 \<longleftrightarrow>
     file_nr cell1 = file_nr cell2
     \<and> add64 (offset cell1) (count cell1) = offset cell2
     \<and> add64 (count cell1) (count cell2) \<le> max_sz"

text \<open>
  One iteration of the loop \<open>for cell_nr in range(nr_to_read-1)\<close>: the cells at
  \<open>cell_nr\<close> and \<open>cell_nr+1\<close> are views into the array, which is updated in place.
\<close>

definition merge_step :: "int \<Rightarrow> swift_cell list \<Rightarrow> nat \<Rightarrow> swift_cell list" where
  "merge_step max_sz cells_to_read cell_nr =
     (let cell1 = cells_to_read ! cell_nr;
          cell2 = cells_to_read ! (cell_nr + 1)
      in if mergeable max_sz cell1 cell2
         then cells_to_read
                [cell_nr + 1 := cell2\<lparr>count := add64 (count cell2) (count cell1),
                                      offset := offset cell1\<rparr>,
                 cell_nr := cell1\<lparr>count := 0\<rparr>]
         else cells_to_read)"

definition merge_loop :: "int \<Rightarrow> swift_cell list \<Rightarrow> swift_cell list" where
  "merge_loop max_sz cells_to_read =
     foldl (merge_step max_sz) cells_to_read [0..<length cells_to_read - 1]"

text \<open>\<open>cells_to_read[cells_to_read["count"] > 0]\<close>\<close>

definition discard_empty :: "swift_cell list \<Rightarrow> swift_cell list" where
  "discard_empty cells_to_read = filter (\<lambda>c. count c > 0) cells_to_read"

text \<open>The merge loop followed by the filter that drops the emptied cells.\<close>

definition merge_adjacent :: "int \<Rightarrow> swift_cell list \<Rightarrow> swift_cell list" where
  "merge_adjacent max_sz cells_to_read = discard_empty (merge_loop max_sz cells_to_read)"

definition max_size :: int where
  "max_size = 20 * 1024 ^ 2"

text \<open>
  The same pass as a recursion on the list: it is used in the proofs only, and
  \<open>merge_loop_eq_walk\<close> shows that it computes what the indexed loop computes.
\<close>

fun merge_walk :: "int \<Rightarrow> swift_cell list \<Rightarrow> swift_cell list" where
  "merge_walk max_sz (cell1 # cell2 # cs) =
     (if mergeable max_sz cell1 cell2
      then cell1\<lparr>count := 0\<rparr>
           # merge_walk max_sz
               (cell2\<lparr>count := add64 (count cell2) (count cell1), offset := offset cell1\<rparr> # cs)
      else cell1 # merge_walk max_sz (cell2 # cs))"
| "merge_walk max_sz cs = cs"

section \<open>Sharing the tasks over the ranks\<close>

text \<open>\<open>collections.deque.popleft\<close> raises \<open>IndexError\<close> on an empty deque.\<close>

fun popleft :: "'a list \<Rightarrow> error + ('a \<times> 'a list)" where
  "popleft [] = Inl IndexError"
| "popleft (x # xs) = Inr (x, xs)"

text \<open>\<open>n\<close> times \<open>queue.append(all_tasks.popleft())\<close>.\<close>

fun move_tasks :: "nat \<Rightarrow> 'a list \<Rightarrow> 'a list \<Rightarrow> error + ('a list \<times> 'a list)" where
  "move_tasks 0 queue all_tasks = Inr (queue, all_tasks)"
| "move_tasks (Suc n) queue all_tasks =
     (case popleft all_tasks of
        Inl e \<Rightarrow> Inl e
      | Inr (t, rest) \<Rightarrow> move_tasks n (queue @ [t]) rest)"

text \<open>
  The loop \<open>for rank in range(comm_size)\<close>; every queue starts empty. The result is the
  list of queues and what is left of \<open>all_tasks\<close>.
\<close>

fun fill_queues :: "nat \<Rightarrow> nat \<Rightarrow> nat list \<Rightarrow> 'a list \<Rightarrow> error + ('a list list \<times> 'a list)" where
  "fill_queues tasks_per_rank extra [] all_tasks = Inr ([], all_tasks)"
| "fill_queues tasks_per_rank extra (rank # ranks) all_tasks =
     (case move_tasks tasks_per_rank [] all_tasks of
        Inl e \<Rightarrow> Inl e
      | Inr (q, rest) \<Rightarrow>
          (case (if rank < extra then move_tasks 1 q rest else Inr (q, rest)) of
             Inl e \<Rightarrow> Inl e
           | Inr (q', rest') \<Rightarrow>
               (case fill_queues tasks_per_rank extra ranks rest' of
                  Inl e \<Rightarrow> Inl e
                | Inr (qs, rest'') \<Rightarrow> Inr (q' # qs, rest''))))"

text \<open>
  Lines 336 to 346: the division by \<open>comm_size\<close> raises for zero, and the final
  \<open>assert len(all_tasks) == 0\<close> is a branch of the model.
\<close>

definition share_tasks :: "'a list \<Rightarrow> nat \<Rightarrow> error + 'a list list" where
  "share_tasks all_tasks comm_size =
     (if comm_size = 0 then Inl ZeroDivisionError
      else
        let nr_tasks = length all_tasks;
            tasks_per_rank = nr_tasks div comm_size
        in case fill_queues tasks_per_rank (nr_tasks mod comm_size) [0..<comm_size] all_tasks of
             Inl e \<Rightarrow> Inl e
           | Inr (tasks, rest) \<Rightarrow> if rest = [] then Inr tasks else Inl AssertionError)"

text \<open>
  Lines 358 to 360: the length of the local section of a shared array on rank
  \<open>comm_rank\<close>. Python's \<open>//\<close> and \<open>%\<close> are floor division and its remainder, as
  \<open>div\<close> and \<open>mod\<close> on \<open>int\<close>.
\<close>

definition nr_local :: "int \<Rightarrow> nat \<Rightarrow> nat \<Rightarrow> int" where
  "nr_local nr_parts comm_size comm_rank =
     (let n = nr_parts div int comm_size
      in if int comm_rank < nr_parts mod int comm_size then n + 1 else n)"

text \<open>The number of tasks the loop gives to one rank.\<close>

definition rank_share :: "nat \<Rightarrow> nat \<Rightarrow> nat \<Rightarrow> nat" where
  "rank_share tasks_per_rank extra = (\<lambda>rank. tasks_per_rank + (if rank < extra then 1 else 0))"

section \<open>Arrays, the grid and the mask\<close>

text \<open>
  The numpy arrays of cells live in a store: an array is a reference into it. Indexing an
  array with a boolean or an integer array makes a new array (\<open>alloc\<close>), while the
  fields of \<open>cells[i]\<close> are written in place (\<open>arrays_update\<close> at the same reference).
\<close>

record store =
  arrays :: "nat \<Rightarrow> swift_cell list"
  next_ref :: nat

definition alloc :: "swift_cell list \<Rightarrow> store \<Rightarrow> nat \<times> store" where
  "alloc cells s =
     (next_ref s, s\<lparr>arrays := (arrays s)(next_ref s := cells), next_ref := Suc (next_ref s)\<rparr>)"

type_synonym cell_mask = "bool list list list"

text \<open>
  \<open>SWIFTCellGrid\<close>, with the attributes the planner and the orchestrator read. The array
  \<open>self.cell[ptype]\<close> is kept flat, in the order of the file, and \<open>reshape\<close> is a view of
  it: the cell at grid index \<open>(i, j, k)\<close> is the element \<open>(i * d1 + j) * d2 + k\<close>. The
  file name patterns are functions of the file number (\<open>pattern % {"file_nr": n}\<close>). The
  metadata dictionaries map a particle type to the dictionary of its datasets;
  \<open>extra_metadata\<close> only exists when \<open>extra_filename\<close> is given.
\<close>

record 'm swift_cell_grid =
  snap_filename :: "int \<Rightarrow> string"
  extra_filename :: "(int \<Rightarrow> string) option"
  dimension :: "nat \<times> nat \<times> nat"
  cell_size :: "real \<times> real \<times> real"
  cell :: "string \<rightharpoonup> nat"
  snap_metadata :: "string \<rightharpoonup> (string \<rightharpoonup> 'm)"
  extra_metadata :: "(string \<rightharpoonup> (string \<rightharpoonup> 'm)) option"

definition mask_shape :: "nat \<times> nat \<times> nat \<Rightarrow> cell_mask \<Rightarrow> bool" where
  "mask_shape shp msk =
     (case shp of (d0, d1, d2) \<Rightarrow>
        length msk = d0
        \<and> list_all (\<lambda>plane. length plane = d1 \<and> list_all (\<lambda>row. length row = d2) plane) msk)"


text \<open>
  \<open>cells[mask]\<close> for a boolean mask: the selected cells in the order of the flat array.
  numpy raises \<open>IndexError\<close> when the shape of the mask is not the shape of the array.
\<close>

definition boolean_index ::
  "nat \<times> nat \<times> nat \<Rightarrow> swift_cell list \<Rightarrow> cell_mask \<Rightarrow> error + swift_cell list" where
  "boolean_index shp cells msk =
     (case shp of (d0, d1, d2) \<Rightarrow>
        if mask_shape shp msk \<and> length cells = d0 * d1 * d2
        then Inr (map fst (filter snd (zip cells (concat (concat msk)))))
        else Inl IndexError)"

section \<open>Building the index: the order of the cells\<close>

text \<open>
  \<open>np.lexsort((cells["offset"], cells["file"]))\<close>: the indices of the cells in a stable
  sort by file and then by offset (the last key of \<open>lexsort\<close> is the primary one).
\<close>

definition lexsort :: "swift_cell list \<Rightarrow> nat list" where
  "lexsort cells = sort_key (\<lambda>i. (file_nr (cells ! i), offset (cells ! i))) [0..<length cells]"

text \<open>The field \<open>order\<close> is \<open>np.int32\<close>.\<close>

definition wrap32 :: "int \<Rightarrow> int" where
  "wrap32 x = (x + 2 ^ 31) mod 2 ^ 32 - 2 ^ 31"

text \<open>
  Lines 204 to 206 for one particle type:
  \<open>for cell_order, cell_index in enumerate(idx): cellgrid[cell_index]["order"] = cell_order\<close>
\<close>

definition set_order :: "swift_cell list \<Rightarrow> nat \<times> nat \<Rightarrow> swift_cell list" where
  "set_order cellgrid p =
     (case p of (cell_order, cell_index) \<Rightarrow>
        cellgrid[cell_index := (cellgrid ! cell_index)\<lparr>order := wrap32 (int cell_order)\<rparr>])"

definition assign_order :: "swift_cell list \<Rightarrow> swift_cell list" where
  "assign_order cellgrid = foldl set_order cellgrid (enumerate 0 (lexsort cellgrid))"

section \<open>The read planner\<close>

text \<open>A read is \<open>(file_offset, mem_offset, count)\<close>; the dictionary \<open>reads\<close> keeps its keys
  in the order of insertion.\<close>

type_synonym read_range = "int \<times> int \<times> int"

type_synonym reads = "(int \<times> read_range list) list"

text \<open>\<open>cells[idx]\<close> for an array of indices.\<close>

definition take_cells :: "swift_cell list \<Rightarrow> nat list \<Rightarrow> swift_cell list" where
  "take_cells cells idx = map (\<lambda>i. cells ! i) idx"

text \<open>\<open>np.unique\<close>: the sorted distinct values.\<close>

definition np_unique :: "int list \<Rightarrow> int list" where
  "np_unique xs = sort (remdups xs)"

text \<open>The merge loop on the array at reference \<open>a\<close>, written in place.\<close>

definition merge_step_st :: "int \<Rightarrow> nat \<Rightarrow> store \<Rightarrow> nat \<Rightarrow> store" where
  "merge_step_st max_sz a s cell_nr =
     s\<lparr>arrays := (arrays s)(a := merge_step max_sz (arrays s a) cell_nr)\<rparr>"

definition merge_loop_st :: "int \<Rightarrow> nat \<Rightarrow> store \<Rightarrow> store" where
  "merge_loop_st max_sz a s =
     foldl (merge_step_st max_sz a) s [0..<length (arrays s a) - 1]"

text \<open>\<open>d[k].append(v)\<close>, with the \<open>KeyError\<close> of \<open>d[k]\<close>.\<close>

fun dict_append :: "'k \<Rightarrow> 'v \<Rightarrow> ('k \<times> 'v list) list \<Rightarrow> error + ('k \<times> 'v list) list" where
  "dict_append k v [] = Inl KeyError"
| "dict_append k v ((k', vs) # d) =
     (if k = k' then Inr ((k', vs @ [v]) # d)
      else case dict_append k v d of
             Inl e \<Rightarrow> Inl e
           | Inr d' \<Rightarrow> Inr ((k', vs) # d'))"

text \<open>
  Lines 267 to 269: \<open>mem_offset\<close> starts at 0 and becomes an \<open>np.int64\<close> with the first
  addition.
\<close>

fun add_reads :: "reads \<Rightarrow> int \<Rightarrow> swift_cell list \<Rightarrow> error + reads" where
  "add_reads reads mem_offset [] = Inr reads"
| "add_reads reads mem_offset (c # cells_to_read) =
     (case dict_append (file_nr c) (offset c, mem_offset, count c) reads of
        Inl e \<Rightarrow> Inl e
      | Inr reads' \<Rightarrow> add_reads reads' (add64 mem_offset (count c)) cells_to_read)"

text \<open>
  \<open>prepare_read\<close>, lines 235 to 271. \<open>self.cell[ptype]\<close> raises \<open>KeyError\<close> for a
  particle type the grid does not have. Each indexing makes a new array: the selected
  cells, their flattened copy, the cells that are not empty, and those in the order of
  \<open>lexsort\<close>. The merge loop writes into the last of these, and the cells it has not
  emptied are copied once more before the reads are made.
\<close>

definition prepare_read ::
  "'m swift_cell_grid \<Rightarrow> string \<Rightarrow> cell_mask \<Rightarrow> store \<Rightarrow> error + (reads \<times> store)" where
  "prepare_read self ptype msk s =
     (case cell self ptype of
        None \<Rightarrow> Inl KeyError
      | Some r \<Rightarrow>
          (case boolean_index (dimension self) (arrays s r) msk of
             Inl e \<Rightarrow> Inl e
           | Inr selected \<Rightarrow>
               let (a1, s1) = alloc selected s;
                   (a2, s2) = alloc (arrays s1 a1) s1;
                   (a3, s3) = alloc (discard_empty (arrays s2 a2)) s2;
                   (a4, s4) = alloc (take_cells (arrays s3 a3) (lexsort (arrays s3 a3))) s3;
                   s5 = merge_loop_st max_size a4 s4;
                   (a6, s6) = alloc (discard_empty (arrays s5 a4)) s5;
                   cells_to_read = arrays s6 a6;
                   unique_file_nrs = np_unique (map file_nr cells_to_read)
               in (case add_reads (map (\<lambda>f. (f, [])) unique_file_nrs) 0 cells_to_read of
                     Inl e \<Rightarrow> Inl e
                   | Inr reads \<Rightarrow> Inr (reads, s6))))"

text \<open>
  The planned ranges in the words of the specification: a running counter, advanced by
  the count of each range, gives the memory offsets; \<open>contiguous a rs b\<close> says that the
  ranges \<open>rs\<close>, each with a positive count, tile \<open>[a, b)\<close> in their order.
\<close>

fun running_ranges :: "int \<Rightarrow> swift_cell list \<Rightarrow> read_range list" where
  "running_ranges m [] = []"
| "running_ranges m (c # cs) = (offset c, m, count c) # running_ranges (m + count c) cs"

fun contiguous :: "int \<Rightarrow> read_range list \<Rightarrow> int \<Rightarrow> bool" where
  "contiguous a [] b = (a = b)"
| "contiguous a ((file_offset, mem_offset, n) # rs) b =
     (mem_offset = a \<and> 0 < n \<and> contiguous (a + n) rs b)"

section \<open>The region mask\<close>








section \<open>Auxiliary notions of the proofs\<close>

text \<open>The cells the planner turns into ranges, as a function of the selected cells.\<close>

definition cell_key :: "swift_cell \<Rightarrow> int \<times> int" where
  "cell_key c = (file_nr c, offset c)"

definition planned_cells :: "swift_cell list \<Rightarrow> swift_cell list" where
  "planned_cells selected =
     merge_adjacent max_size
       (take_cells (discard_empty selected) (lexsort (discard_empty selected)))"

text \<open>The ranges with the memory offsets \<open>add_reads\<close> computes, before they are grouped.\<close>

fun wrapped_ranges :: "int \<Rightarrow> swift_cell list \<Rightarrow> read_range list" where
  "wrapped_ranges m [] = []"
| "wrapped_ranges m (c # cs) = (offset c, m, count c) # wrapped_ranges (add64 m (count c)) cs"

text \<open>The ranges of one file among ranges that are paired with their file numbers.\<close>

definition ranges_of_file :: "int \<Rightarrow> (int \<times> read_range) list \<Rightarrow> read_range list" where
  "ranges_of_file f tagged = map snd (filter (\<lambda>p. fst p = f) tagged)"

section \<open>A small archive\<close>

text \<open>
  A grid of 2 by 2 by 2 cells for one particle type, in two files, with the counts 4, 0,
  4, 4, 0, 0, 4 and 4: the cells 0, 2 and 3 follow each other in file 0, the cells 6 and
  7 in file 1. The theorems below are instantiated with it.
\<close>

definition demo_cell :: "int \<Rightarrow> int \<Rightarrow> int \<Rightarrow> int \<Rightarrow> swift_cell" where
  "demo_cell n off f ord = \<lparr>centre = (0, 0, 0), count = n, offset = off, file_nr = f, order = ord\<rparr>"

definition demo_cells :: "swift_cell list" where
  "demo_cells =
     [demo_cell 4 0 0 0, demo_cell 0 0 0 1, demo_cell 4 4 0 2, demo_cell 4 8 0 3,
      demo_cell 0 0 1 4, demo_cell 0 0 1 5, demo_cell 4 0 1 6, demo_cell 4 4 1 7]"

definition demo_store :: store where
  "demo_store = \<lparr>arrays = (\<lambda>a. [])(0 := demo_cells), next_ref = 1\<rparr>"

definition demo_grid :: "unit swift_cell_grid" where
  "demo_grid =
     \<lparr>snap_filename = (\<lambda>n. ''snap''), extra_filename = None,
      dimension = (2, 2, 2), cell_size = (1, 1, 1),
      cell = [''PartType0'' \<mapsto> 0],
      snap_metadata = [''PartType0'' \<mapsto> [''Coordinates'' \<mapsto> ()]],
      extra_metadata = None\<rparr>"

text \<open>The mask that selects the cells 1, 2, 3 and 6.\<close>

definition demo_mask :: cell_mask where
  "demo_mask = [[[False, True], [True, True]], [[False, False], [True, False]]]"

section \<open>The dataset cache\<close>

text \<open>
  The files of the archive are read only: a file name gives the datasets of the file, a
  dataset path gives the rows of the dataset. What \<open>h5py\<close> is asked to do is recorded in a
  log, so that opening and closing a file and looking a dataset up can be observed.
\<close>

type_synonym 'v archive = "string \<rightharpoonup> (string \<rightharpoonup> 'v list)"

datatype h5_event = FileOpen string | FileClose string | DatasetLookup string string

text \<open>
  \<open>DatasetCache\<close>. The \<open>h5py.File\<close> object is known by the name it was opened with, the
  \<open>h5py.Dataset\<close> object by its file and its path.
\<close>

record dataset_cache =
  file_name :: "string option"
  infile :: "string option"
  dataset_name :: "string option"
  dataset :: "(string \<times> string) option"

definition new_cache :: dataset_cache where
  "new_cache = \<lparr>file_name = None, infile = None, dataset_name = None, dataset = None\<rparr>"

text \<open>
  \<open>open_dataset\<close>: \<open>h5py.File\<close> raises \<open>OSError\<close> for a file that is not there,
  \<open>self.infile[dataset_name]\<close> raises \<open>KeyError\<close> for a dataset that is not in the file
  (and \<open>TypeError\<close> when \<open>self.infile\<close> is \<open>None\<close>). An exception ends the whole read, so
  the state after it is not kept.
\<close>

definition open_dataset ::
  "'v archive \<Rightarrow> dataset_cache \<times> h5_event list \<Rightarrow> string \<Rightarrow> string
     \<Rightarrow> error + ((string \<times> string) option \<times> dataset_cache \<times> h5_event list)" where
  "open_dataset fs st fname dname =
     (case st of (self, events) \<Rightarrow>
        (case (if Some fname \<noteq> file_name self
               then (case fs fname of
                       None \<Rightarrow> Inl OSError
                     | Some datasets \<Rightarrow>
                         Inr (self\<lparr>infile := Some fname, file_name := Some fname,
                                    dataset_name := None, dataset := None\<rparr>,
                              events @ [FileOpen fname]))
               else Inr (self, events)) of
           Inl e \<Rightarrow> Inl e
         | Inr (self1, events1) \<Rightarrow>
             (if Some dname \<noteq> dataset_name self1
              then (case infile self1 of
                      None \<Rightarrow> Inl TypeError
                    | Some f \<Rightarrow>
                        (case Option.bind (fs f) (\<lambda>datasets. datasets dname) of
                           None \<Rightarrow> Inl KeyError
                         | Some rows \<Rightarrow>
                             Inr (Some (f, dname),
                                  self1\<lparr>dataset := Some (f, dname), dataset_name := Some dname\<rparr>,
                                  events1 @ [DatasetLookup f dname])))
              else Inr (dataset self1, self1, events1))))"

definition close :: "dataset_cache \<times> h5_event list \<Rightarrow> dataset_cache \<times> h5_event list" where
  "close st =
     (case st of (self, events) \<Rightarrow>
        (self\<lparr>dataset := None, dataset_name := None, file_name := None\<rparr>,
         case infile self of None \<Rightarrow> events | Some f \<Rightarrow> events @ [FileClose f]))"

text \<open>A sequence of requests to one cache, as the tasks of one rank make them.\<close>

fun open_all ::
  "'v archive \<Rightarrow> dataset_cache \<times> h5_event list \<Rightarrow> (string \<times> string) list
     \<Rightarrow> error + (dataset_cache \<times> h5_event list)" where
  "open_all fs st [] = Inr st"
| "open_all fs st ((fname, dname) # requests) =
     (case open_dataset fs st fname dname of
        Inl e \<Rightarrow> Inl e
      | Inr (handle, st') \<Rightarrow> open_all fs st' requests)"

section \<open>Read tasks\<close>

text \<open>\<open>ReadTask(file_name, ptype, dataset, file_offset, mem_offset, count)\<close>\<close>

datatype read_task = ReadTask string string string int int int

text \<open>\<open>data[ptype][dataset].full.value\<close>: the whole shared array of a dataset.\<close>

type_synonym 'v shared_data = "string \<rightharpoonup> (string \<rightharpoonup> 'v list)"

text \<open>
  A slice \<open>start:stop\<close> on an axis of length \<open>n\<close>, as \<open>h5py\<close> reads a selection made with
  \<open>np.s_\<close>: a negative bound counts from the end, both bounds are clipped to the axis, and
  the selection is empty when the stop is not after the start. The result is the first
  index and the number of rows.
\<close>

definition slice_range :: "int \<Rightarrow> int \<Rightarrow> nat \<Rightarrow> nat \<times> nat" where
  "slice_range start stop n =
     (let clip = (\<lambda>i. if i < 0 then max 0 (i + int n) else min i (int n));
          a = clip start;
          b = clip stop
      in (nat a, nat (b - a)))"

text \<open>
  \<open>Dataset.read_direct(dest, source_sel, dest_sel)\<close> of \<open>h5py\<close>: the selected rows of the
  dataset are copied into the selected rows of the destination; a selection of one row is
  broadcast, and selections of different lengths raise \<open>TypeError\<close> otherwise.
\<close>

definition read_direct :: "'v list \<Rightarrow> 'v list \<Rightarrow> int \<times> int \<Rightarrow> int \<times> int \<Rightarrow> error + 'v list" where
  "read_direct src dest source_sel dest_sel =
     (case (slice_range (fst source_sel) (snd source_sel) (length src),
            slice_range (fst dest_sel) (snd dest_sel) (length dest)) of
        ((s0, sn), (d0, dn)) \<Rightarrow>
          if sn = dn then Inr (take d0 dest @ take sn (drop s0 src) @ drop (d0 + dn) dest)
          else if sn = 1 then Inr (take d0 dest @ replicate dn (src ! s0) @ drop (d0 + dn) dest)
          else Inl TypeError)"

text \<open>
  \<open>ReadTask.__call__\<close>. The offsets and the count are \<open>np.int64\<close>, so the ends of the two
  slices are wrapping sums. A dataset handle that is \<open>None\<close> has no \<open>read_direct\<close>, and
  \<open>data[ptype][dataset]\<close> raises \<open>KeyError\<close> for a missing key.
\<close>

definition call_task ::
  "'v archive \<Rightarrow> read_task \<Rightarrow> 'v shared_data \<Rightarrow> dataset_cache \<times> h5_event list
     \<Rightarrow> error + ('v shared_data \<times> dataset_cache \<times> h5_event list)" where
  "call_task fs task data cache =
     (case task of ReadTask fname ptype dset file_offset mem_offset n \<Rightarrow>
        (case open_dataset fs cache fname (ptype @ ''/'' @ dset) of
           Inl e \<Rightarrow> Inl e
         | Inr (handle, cache') \<Rightarrow>
             (case handle of
                None \<Rightarrow> Inl AttributeError
              | Some (f, d) \<Rightarrow>
                  (case Option.bind (fs f) (\<lambda>datasets. datasets d) of
                     None \<Rightarrow> Inl KeyError
                   | Some src \<Rightarrow>
                       (case data ptype of
                          None \<Rightarrow> Inl KeyError
                        | Some buffers \<Rightarrow>
                            (case buffers dset of
                               None \<Rightarrow> Inl KeyError
                             | Some dest \<Rightarrow>
                                 (case read_direct src dest
                                         (file_offset, add64 file_offset n)
                                         (mem_offset, add64 mem_offset n) of
                                    Inl e \<Rightarrow> Inl e
                                  | Inr dest' \<Rightarrow>
                                      Inr (data(ptype \<mapsto> buffers(dset \<mapsto> dest')), cache'))))))))"

section \<open>The orchestrator\<close>

text \<open>\<open>d[k]\<close> on a dictionary that keeps the order of insertion, and \<open>d[k] = v\<close>.\<close>

definition dict_get :: "('k \<times> 'v) list \<Rightarrow> 'k \<Rightarrow> error + 'v" where
  "dict_get d k = (case map_of d k of None \<Rightarrow> Inl KeyError | Some v \<Rightarrow> Inr v)"

fun dict_set :: "'k \<Rightarrow> 'v \<Rightarrow> ('k \<times> 'v) list \<Rightarrow> ('k \<times> 'v) list" where
  "dict_set k v [] = [(k, v)]"
| "dict_set k v ((k', v') # d) = (if k = k' then (k, v) # d else (k', v') # dict_set k v d)"

text \<open>
  \<open>property_names\<close> maps a particle type to the list of the dataset names to read.
  Lines 297 to 299: one call of \<open>prepare_read\<close> for each particle type.
\<close>

fun plan_reads ::
  "'m swift_cell_grid \<Rightarrow> string list \<Rightarrow> cell_mask \<Rightarrow> store
     \<Rightarrow> error + ((string \<times> reads) list \<times> store)" where
  "plan_reads self [] msk s = Inr ([], s)"
| "plan_reads self (ptype # ptypes) msk s =
     (case prepare_read self ptype msk s of
        Inl e \<Rightarrow> Inl e
      | Inr (reads, s') \<Rightarrow>
          (case plan_reads self ptypes msk s' of
             Inl e \<Rightarrow> Inl e
           | Inr (reads_for_type, s'') \<Rightarrow> Inr ((ptype, reads) # reads_for_type, s'')))"

text \<open>Lines 302 to 305: the union of the file numbers of all particle types.\<close>

definition union_file_nrs :: "(string \<times> reads) list \<Rightarrow> int list" where
  "union_file_nrs reads_for_type = np_unique (concat (map (\<lambda>(ptype, reads). map fst reads) reads_for_type))"

text \<open>
  Lines 308 to 312: the number of particles of each type. \<open>nr_parts[ptype]\<close> starts at 0
  and becomes an \<open>np.int64\<close> with the first addition.
\<close>

fun count_ptypes ::
  "(string \<times> reads) list \<Rightarrow> int \<Rightarrow> string list \<Rightarrow> (string \<times> int) list
     \<Rightarrow> error + (string \<times> int) list" where
  "count_ptypes reads_for_type fnr [] nr_parts = Inr nr_parts"
| "count_ptypes reads_for_type fnr (ptype # ptypes) nr_parts =
     (case dict_get reads_for_type ptype of
        Inl e \<Rightarrow> Inl e
      | Inr reads \<Rightarrow>
          (case dict_get reads fnr of
             Inl e \<Rightarrow> Inl e
           | Inr ranges \<Rightarrow>
               (case dict_get nr_parts ptype of
                  Inl e \<Rightarrow> Inl e
                | Inr n \<Rightarrow>
                    count_ptypes reads_for_type fnr ptypes
                      (dict_set ptype
                         (foldl (\<lambda>n (file_offset, mem_offset, c). add64 n c) n ranges)
                         nr_parts))))"

fun count_files ::
  "(string \<times> reads) list \<Rightarrow> int list \<Rightarrow> string list \<Rightarrow> (string \<times> int) list
     \<Rightarrow> error + (string \<times> int) list" where
  "count_files reads_for_type [] ptypes nr_parts = Inr nr_parts"
| "count_files reads_for_type (fnr # fnrs) ptypes nr_parts =
     (case count_ptypes reads_for_type fnr ptypes nr_parts of
        Inl e \<Rightarrow> Inl e
      | Inr nr_parts' \<Rightarrow> count_files reads_for_type fnrs ptypes nr_parts')"

definition count_particles ::
  "(string \<times> reads) list \<Rightarrow> int list \<Rightarrow> string list \<Rightarrow> error + (string \<times> int) list" where
  "count_particles reads_for_type all_file_nrs ptypes =
     count_files reads_for_type all_file_nrs ptypes (map (\<lambda>ptype. (ptype, 0)) ptypes)"

text \<open>
  Lines 317 to 323, innermost loop first. The test \<open>dataset in self.snap_metadata\<close> looks
  the dataset name up among the keys of the metadata dictionary, which are the particle
  types; the ranges \<open>reads_for_type[ptype][file_nr]\<close> are only looked up when it holds.
\<close>

fun dataset_tasks ::
  "(string \<rightharpoonup> 'x) \<Rightarrow> (string \<times> reads) list \<Rightarrow> string \<Rightarrow> int \<Rightarrow> string \<Rightarrow> string list
     \<Rightarrow> error + read_task list" where
  "dataset_tasks metadata reads_for_type filename fnr ptype [] = Inr []"
| "dataset_tasks metadata reads_for_type filename fnr ptype (dset # dsets) =
     (case (if metadata dset \<noteq> None
            then (case dict_get reads_for_type ptype of
                    Inl e \<Rightarrow> Inl e
                  | Inr reads \<Rightarrow>
                      (case dict_get reads fnr of
                         Inl e \<Rightarrow> Inl e
                       | Inr ranges \<Rightarrow>
                           Inr (map (\<lambda>(file_offset, mem_offset, c).
                                       ReadTask filename ptype dset file_offset mem_offset c)
                                  ranges)))
            else Inr []) of
        Inl e \<Rightarrow> Inl e
      | Inr tasks \<Rightarrow>
          (case dataset_tasks metadata reads_for_type filename fnr ptype dsets of
             Inl e \<Rightarrow> Inl e
           | Inr rest \<Rightarrow> Inr (tasks @ rest)))"

fun ptype_tasks ::
  "(string \<rightharpoonup> 'x) \<Rightarrow> (string \<times> reads) list \<Rightarrow> string \<Rightarrow> int \<Rightarrow> (string \<times> string list) list
     \<Rightarrow> error + read_task list" where
  "ptype_tasks metadata reads_for_type filename fnr [] = Inr []"
| "ptype_tasks metadata reads_for_type filename fnr ((ptype, dsets) # property_names) =
     (case dataset_tasks metadata reads_for_type filename fnr ptype dsets of
        Inl e \<Rightarrow> Inl e
      | Inr tasks \<Rightarrow>
          (case ptype_tasks metadata reads_for_type filename fnr property_names of
             Inl e \<Rightarrow> Inl e
           | Inr rest \<Rightarrow> Inr (tasks @ rest)))"

fun file_tasks ::
  "(string \<rightharpoonup> 'x) \<Rightarrow> (string \<times> reads) list \<Rightarrow> (int \<Rightarrow> string) \<Rightarrow> int list
     \<Rightarrow> (string \<times> string list) list \<Rightarrow> error + read_task list" where
  "file_tasks metadata reads_for_type pattern [] property_names = Inr []"
| "file_tasks metadata reads_for_type pattern (fnr # fnrs) property_names =
     (case ptype_tasks metadata reads_for_type (pattern fnr) fnr property_names of
        Inl e \<Rightarrow> Inl e
      | Inr tasks \<Rightarrow>
          (case file_tasks metadata reads_for_type pattern fnrs property_names of
             Inl e \<Rightarrow> Inl e
           | Inr rest \<Rightarrow> Inr (tasks @ rest)))"

text \<open>
  Lines 316 to 333: the tasks of the snapshot files, then those of the extra files when
  \<open>extra_filename\<close> is given (\<open>self.extra_metadata\<close> raises \<open>AttributeError\<close> when it
  was never set).
\<close>

definition make_tasks ::
  "'m swift_cell_grid \<Rightarrow> (string \<times> string list) list \<Rightarrow> (string \<times> reads) list \<Rightarrow> int list
     \<Rightarrow> error + read_task list" where
  "make_tasks self property_names reads_for_type all_file_nrs =
     (case file_tasks (snap_metadata self) reads_for_type (snap_filename self) all_file_nrs
             property_names of
        Inl e \<Rightarrow> Inl e
      | Inr all_tasks \<Rightarrow>
          (case extra_filename self of
             None \<Rightarrow> Inr all_tasks
           | Some pattern \<Rightarrow>
               (if all_file_nrs = [] \<or> list_all (\<lambda>(ptype, dsets). dsets = []) property_names
                then Inr all_tasks
                else (case extra_metadata self of
                        None \<Rightarrow> Inl AttributeError
                      | Some metadata \<Rightarrow>
                          (case file_tasks metadata reads_for_type pattern all_file_nrs
                                  property_names of
                             Inl e \<Rightarrow> Inl e
                           | Inr extra_tasks \<Rightarrow> Inr (all_tasks @ extra_tasks))))))"

text \<open>
  Lines 349 to 365, inner loop first: the metadata of each requested dataset and the
  lengths of its shared array, the whole array and the section of this rank. The test
  \<open>name in self.snap_metadata\<close> is on the keys of the outer dictionary again; the
  lookups \<open>self.snap_metadata[ptype][name]\<close> and \<open>self.extra_metadata[ptype][name]\<close>
  raise \<open>KeyError\<close> for a missing key. The result stands for \<open>data\<close>: for each
  dataset the global length, the local length and the metadata of the array.
\<close>

fun allocate_datasets ::
  "'m swift_cell_grid \<Rightarrow> string \<Rightarrow> int \<Rightarrow> nat \<Rightarrow> nat \<Rightarrow> string list
     \<Rightarrow> (string \<times> int \<times> int \<times> 'm) list \<Rightarrow> error + (string \<times> int \<times> int \<times> 'm) list" where
  "allocate_datasets self ptype nr comm_size comm_rank [] arrays_of_type = Inr arrays_of_type"
| "allocate_datasets self ptype nr comm_size comm_rank (name # names) arrays_of_type =
     (case (if snap_metadata self name \<noteq> None
            then (case snap_metadata self ptype of
                    None \<Rightarrow> Inl KeyError
                  | Some datasets \<Rightarrow>
                      (case datasets name of None \<Rightarrow> Inl KeyError | Some m \<Rightarrow> Inr m))
            else (case extra_metadata self of
                    None \<Rightarrow> Inl AttributeError
                  | Some metadata \<Rightarrow>
                      (case metadata ptype of
                         None \<Rightarrow> Inl KeyError
                       | Some datasets \<Rightarrow>
                           (case datasets name of None \<Rightarrow> Inl KeyError | Some m \<Rightarrow> Inr m)))) of
        Inl e \<Rightarrow> Inl e
      | Inr m \<Rightarrow>
          allocate_datasets self ptype nr comm_size comm_rank names
            (dict_set name (nr, nr_local nr comm_size comm_rank, m) arrays_of_type))"

fun allocate_types ::
  "'m swift_cell_grid \<Rightarrow> (string \<times> int) list \<Rightarrow> nat \<Rightarrow> nat \<Rightarrow> (string \<times> string list) list
     \<Rightarrow> error + (string \<times> (string \<times> int \<times> int \<times> 'm) list) list" where
  "allocate_types self nr_parts comm_size comm_rank [] = Inr []"
| "allocate_types self nr_parts comm_size comm_rank ((ptype, names) # property_names) =
     (case dict_get nr_parts ptype of
        Inl e \<Rightarrow> Inl e
      | Inr nr \<Rightarrow>
          (case allocate_datasets self ptype nr comm_size comm_rank names [] of
             Inl e \<Rightarrow> Inl e
           | Inr arrays_of_type \<Rightarrow>
               (case allocate_types self nr_parts comm_size comm_rank property_names of
                  Inl e \<Rightarrow> Inl e
                | Inr data \<Rightarrow> Inr ((ptype, arrays_of_type) # data))))"

text \<open>
  Lines 296 to 365 of \<open>read_masked_cells_to_shared_memory\<close>, up to the execution of the
  tasks: the plans, the union of the files, the numbers of particles, the tasks, their
  distribution over the ranks and the shared arrays.
\<close>

definition plan_and_share ::
  "'m swift_cell_grid \<Rightarrow> (string \<times> string list) list \<Rightarrow> cell_mask \<Rightarrow> nat \<Rightarrow> nat \<Rightarrow> store
     \<Rightarrow> error + (read_task list list \<times> (string \<times> (string \<times> int \<times> int \<times> 'm) list) list)" where
  "plan_and_share self property_names msk comm_size comm_rank s =
     (case plan_reads self (map fst property_names) msk s of
        Inl e \<Rightarrow> Inl e
      | Inr (reads_for_type, s') \<Rightarrow>
          let all_file_nrs = union_file_nrs reads_for_type
          in (case count_particles reads_for_type all_file_nrs (map fst property_names) of
                Inl e \<Rightarrow> Inl e
              | Inr nr_parts \<Rightarrow>
                  (case make_tasks self property_names reads_for_type all_file_nrs of
                     Inl e \<Rightarrow> Inl e
                   | Inr all_tasks \<Rightarrow>
                       (case share_tasks all_tasks comm_size of
                          Inl e \<Rightarrow> Inl e
                        | Inr tasks \<Rightarrow>
                            (case allocate_types self nr_parts comm_size comm_rank property_names of
                               Inl e \<Rightarrow> Inl e
                             | Inr data \<Rightarrow> Inr (tasks, data))))))"

section \<open>A second small archive: two particle types\<close>

text \<open>
  The grid of \<open>demo_grid\<close> with a second particle type that has particles in the cell 7
  only, and the request for the coordinates of both types.
\<close>

definition demo_stars :: "swift_cell list" where
  "demo_stars =
     [demo_cell 0 0 0 0, demo_cell 0 0 0 1, demo_cell 0 0 0 2, demo_cell 0 0 0 3,
      demo_cell 0 0 1 4, demo_cell 0 0 1 5, demo_cell 0 0 1 6, demo_cell 3 0 1 7]"

definition demo_store2 :: store where
  "demo_store2 = \<lparr>arrays = (\<lambda>a. [])(0 := demo_cells, 1 := demo_stars), next_ref = 2\<rparr>"

definition demo_grid2 :: "unit swift_cell_grid" where
  "demo_grid2 =
     \<lparr>snap_filename = (\<lambda>n. if n = 0 then ''snap.0.hdf5'' else ''snap.1.hdf5''),
      extra_filename = None,
      dimension = (2, 2, 2), cell_size = (1, 1, 1),
      cell = [''PartType0'' \<mapsto> 0, ''PartType4'' \<mapsto> 1],
      snap_metadata = [''PartType0'' \<mapsto> [''Coordinates'' \<mapsto> ()],
                       ''PartType4'' \<mapsto> [''Coordinates'' \<mapsto> ()]],
      extra_metadata = None\<rparr>"

text \<open>
  The two files of the archive, each with the coordinates of \<open>PartType0\<close> (one number
  for each particle), and shared arrays for the 12 selected particles.
\<close>

definition demo_archive :: "int archive" where
  "demo_archive =
     [''snap.0.hdf5'' \<mapsto> [''PartType0/Coordinates'' \<mapsto> [10, 11, 12, 13, 14, 15, 16, 17, 18, 19, 20, 21]],
      ''snap.1.hdf5'' \<mapsto> [''PartType0/Coordinates'' \<mapsto> [30, 31, 32, 33, 34, 35, 36, 37]]]"

definition demo_data :: "int shared_data" where
  "demo_data = [''PartType0'' \<mapsto> [''Coordinates'' \<mapsto> replicate 12 0]]"

section \<open>Properties of the merge pass\<close>

lemma wrap64_id: "- (2 ^ 63) \<le> x \<Longrightarrow> x < 2 ^ 63 \<Longrightarrow> wrap64 x = x"
  by (simp add: wrap64_def)

lemma merge_step_walk:
  "merge_step m (pre @ c1 # c2 # cs) (length pre) =
     (if mergeable m c1 c2
      then pre @ c1\<lparr>count := 0\<rparr>
             # c2\<lparr>count := add64 (count c2) (count c1), offset := offset c1\<rparr> # cs
      else pre @ c1 # c2 # cs)"
  by (simp add: merge_step_def Let_def nth_append list_update_append)

lemma merge_fold_walk:
  "foldl (merge_step m) (pre @ cs) [length pre..<length pre + (length cs - 1)]
     = pre @ merge_walk m cs"
proof (induction m cs arbitrary: pre rule: merge_walk.induct)
  case (1 m c1 c2 cs)
  let ?c1 = "c1\<lparr>count := 0\<rparr>"
  let ?c2 = "c2\<lparr>count := add64 (count c2) (count c1), offset := offset c1\<rparr>"
  let ?rest = "[Suc (length pre)..<Suc (length pre) + length cs]"
  have idx: "[length pre..<length pre + (length (c1 # c2 # cs) - 1)] = length pre # ?rest"
    using upt_conv_Cons [of "length pre" "Suc (length pre + length cs)"] by simp
  have unroll: "foldl (merge_step m) (pre @ c1 # c2 # cs)
                  [length pre..<length pre + (length (c1 # c2 # cs) - 1)]
      = foldl (merge_step m) (merge_step m (pre @ c1 # c2 # cs) (length pre)) ?rest"
    by (simp only: idx foldl_Cons)
  show ?case
  proof (cases "mergeable m c1 c2")
    case True
    have "foldl (merge_step m) ((pre @ [?c1]) @ ?c2 # cs)
            [length (pre @ [?c1])..<length (pre @ [?c1]) + (length (?c2 # cs) - 1)]
          = (pre @ [?c1]) @ merge_walk m (?c2 # cs)"
      using "1.IH"(1) [OF True] .
    then have "foldl (merge_step m) (pre @ ?c1 # ?c2 # cs) ?rest
          = pre @ ?c1 # merge_walk m (?c2 # cs)"
      by (simp del: upt_Suc)
    with True show ?thesis
      by (simp only: unroll merge_step_walk merge_walk.simps if_True)
  next
    case False
    have "foldl (merge_step m) ((pre @ [c1]) @ c2 # cs)
            [length (pre @ [c1])..<length (pre @ [c1]) + (length (c2 # cs) - 1)]
          = (pre @ [c1]) @ merge_walk m (c2 # cs)"
      using "1.IH"(2) [OF False] .
    then have "foldl (merge_step m) (pre @ c1 # c2 # cs) ?rest
          = pre @ c1 # merge_walk m (c2 # cs)"
      by (simp del: upt_Suc)
    with False show ?thesis
      by (simp only: unroll merge_step_walk merge_walk.simps if_False)
  qed
qed simp_all

lemma merge_loop_eq_walk: "merge_loop m cs = merge_walk m cs"
  using merge_fold_walk [of m "[]" cs] by (simp add: merge_loop_def)

lemma merge_walk_cap:
  "c \<in> set (merge_walk m cs) \<Longrightarrow> c \<in> set cs \<or> count c \<le> m \<or> count c = 0"
proof (induction m cs rule: merge_walk.induct)
  case (1 m c1 c2 cs)
  show ?case
  proof (cases "mergeable m c1 c2")
    case True
    with "1.prems" "1.IH"(1) show ?thesis
      by (auto simp: mergeable_def add.commute add64_def)
  next
    case False
    with "1.prems" "1.IH"(2) show ?thesis
      by auto
  qed
qed simp_all

lemma merge_adjacent_cap:
  "c \<in> set (merge_adjacent m cs) \<Longrightarrow> c \<in> set cs \<or> count c \<le> m"
  using merge_walk_cap [of c m cs]
  by (auto simp: merge_adjacent_def discard_empty_def merge_loop_eq_walk)

section \<open>Properties of the task partition\<close>

lemma move_tasks_take:
  "n \<le> length ts \<Longrightarrow> move_tasks n q ts = Inr (q @ take n ts, drop n ts)"
proof (induction n arbitrary: q ts)
  case 0
  show ?case by simp
next
  case (Suc n)
  then obtain t ts' where ts: "ts = t # ts'"
    by (cases ts) auto
  with Suc.prems have "n \<le> length ts'"
    by simp
  from Suc.IH [OF this] ts show ?case
    by simp
qed

lemma fill_queues_shares:
  "sum_list (map (rank_share per extra) ranks) \<le> length ts \<Longrightarrow>
   \<exists>qs. fill_queues per extra ranks ts
           = Inr (qs, drop (sum_list (map (rank_share per extra) ranks)) ts)
       \<and> concat qs = take (sum_list (map (rank_share per extra) ranks)) ts
       \<and> map length qs = map (rank_share per extra) ranks"
proof (induction ranks arbitrary: ts)
  case Nil
  show ?case by simp
next
  case (Cons rank ranks)
  let ?k = "rank_share per extra rank"
  let ?n = "sum_list (map (rank_share per extra) ranks)"
  from Cons.prems have k: "?k \<le> length ts" and n: "?n \<le> length (drop ?k ts)"
    by simp_all
  have per: "per \<le> length ts"
    using k by (simp add: rank_share_def)
  have first: "(case move_tasks per [] ts of
        Inl e \<Rightarrow> Inl e
      | Inr (q, rest) \<Rightarrow>
          (case (if rank < extra then move_tasks 1 q rest else Inr (q, rest)) of
             Inl e \<Rightarrow> Inl e
           | Inr (q', rest') \<Rightarrow>
               (case fill_queues per extra ranks rest' of
                  Inl e \<Rightarrow> Inl e
                | Inr (qs, rest'') \<Rightarrow> Inr (q' # qs, rest''))))
     = (case fill_queues per extra ranks (drop ?k ts) of
          Inl e \<Rightarrow> Inl e
        | Inr (qs, rest'') \<Rightarrow> Inr (take ?k ts # qs, rest''))"
  proof (cases "rank < extra")
    case True
    with k have "Suc per \<le> length ts"
      by (simp add: rank_share_def)
    then have "1 \<le> length (drop per ts)"
      by simp
    from move_tasks_take [OF this, of "take per ts"]
    have "move_tasks 1 (take per ts) (drop per ts)
        = Inr (take per ts @ take 1 (drop per ts), drop 1 (drop per ts))" .
    moreover have "take per ts @ take 1 (drop per ts) = take (Suc per) ts"
      by (simp add: take_Suc_conv_app_nth take_add [symmetric] flip: take_drop)
    ultimately have m1: "move_tasks 1 (take per ts) (drop per ts)
        = Inr (take (Suc per) ts, drop (Suc per) ts)"
      by simp
    have ks: "?k = Suc per"
      using True by (simp add: rank_share_def)
    have m0: "move_tasks per [] ts = Inr (take per ts, drop per ts)"
      using move_tasks_take [OF per, of "[]"] by simp
    show ?thesis
      unfolding ks m0 using True m1 by (simp del: move_tasks.simps One_nat_def)
  next
    case False
    have ks: "?k = per"
      using False by (simp add: rank_share_def)
    have m0: "move_tasks per [] ts = Inr (take per ts, drop per ts)"
      using move_tasks_take [OF per, of "[]"] by simp
    show ?thesis
      unfolding ks m0 using False by simp
  qed
  from Cons.IH [OF n] obtain qs where
    qs: "fill_queues per extra ranks (drop ?k ts) = Inr (qs, drop ?n (drop ?k ts))"
      "concat qs = take ?n (drop ?k ts)" "map length qs = map (rank_share per extra) ranks"
    by blast
  have "fill_queues per extra (rank # ranks) ts = Inr (take ?k ts # qs, drop ?n (drop ?k ts))"
    using first qs(1) by simp
  moreover have "concat (take ?k ts # qs) = take (?k + ?n) ts"
    using qs(2) by (simp add: take_add)
  moreover have "map length (take ?k ts # qs) = map (rank_share per extra) (rank # ranks)"
    using qs(3) k by simp
  ultimately show ?case
    by (simp add: add.commute)
qed

lemma sum_rank_share_all:
  "p \<le> extra \<Longrightarrow> sum_list (map (rank_share per extra) [0..<p]) = p * per + p"
  by (induction p) (simp_all add: rank_share_def)

lemma sum_rank_share:
  "extra \<le> p \<Longrightarrow> sum_list (map (rank_share per extra) [0..<p]) = p * per + extra"
proof (induction p)
  case 0
  then show ?case by simp
next
  case (Suc p)
  show ?case
  proof (cases "extra \<le> p")
    case True
    with Suc.IH show ?thesis
      by (simp add: rank_share_def)
  next
    case False
    with Suc.prems have e: "extra = Suc p"
      by simp
    from sum_rank_share_all [of p "Suc p" per] show ?thesis
      by (simp add: e rank_share_def)
  qed
qed

lemma sum_below:
  "0 \<le> m \<Longrightarrow> (\<Sum>r<p. if int r < m then 1 else (0::int)) = min m (int p)"
  by (induction p) auto

lemma sum_nr_local:
  assumes "0 < p"
  shows "(\<Sum>rank<p. nr_local nr_parts p rank) = nr_parts"
proof -
  let ?m = "nr_parts mod int p"
  from assms have m: "0 \<le> ?m" "?m < int p"
    by simp_all
  have "(\<Sum>rank<p. nr_local nr_parts p rank)
      = (\<Sum>rank<p. nr_parts div int p + (if int rank < ?m then 1 else 0))"
    by (rule sum.cong) (simp_all add: nr_local_def Let_def)
  also have "\<dots> = int p * (nr_parts div int p) + (\<Sum>rank<p. if int rank < ?m then 1 else 0)"
    by (simp add: sum.distrib)
  also have "\<dots> = int p * (nr_parts div int p) + ?m"
    using m by (simp add: sum_below)
  finally show ?thesis
    by simp
qed

text \<open>
  Claim C7. With \<open>p > 0\<close> ranks the loop succeeds, hands out the whole task list in
  order, and rank \<open>r\<close> gets \<open>n div p\<close> tasks, one more when \<open>r < n mod p\<close>. The local
  section of a shared array has \<open>nr_parts div p\<close> elements on rank \<open>r\<close>, one more when
  \<open>r < nr_parts mod p\<close>; the local sections add up to \<open>nr_parts\<close>, and they are 7, 7 and 6 for 20
  particles on 3 ranks.
\<close>

theorem share_tasks_balanced:
  assumes "0 < p"
  shows "(\<exists>tasks. share_tasks all_tasks p = Inr tasks
            \<and> length tasks = p \<and> concat tasks = all_tasks
            \<and> (\<forall>rank<p. length (tasks ! rank)
                  = length all_tasks div p + (if rank < length all_tasks mod p then 1 else 0)))
       \<and> (\<forall>rank<p. nr_local nr_parts p rank
             = nr_parts div int p + (if int rank < nr_parts mod int p then 1 else 0))
       \<and> (\<Sum>rank<p. nr_local nr_parts p rank) = nr_parts
       \<and> map (nr_local 20 3) [0, 1, 2] = [7, 7, 6]"
proof -
  let ?n = "length all_tasks"
  let ?per = "?n div p"
  let ?extra = "?n mod p"
  from assms have "?extra \<le> p"
    by (simp add: less_imp_le)
  then have total: "sum_list (map (rank_share ?per ?extra) [0..<p]) = ?n"
    by (simp add: sum_rank_share)
  then have "sum_list (map (rank_share ?per ?extra) [0..<p]) \<le> length all_tasks"
    by simp
  from fill_queues_shares [OF this] obtain qs where
    qs: "fill_queues ?per ?extra [0..<p] all_tasks = Inr (qs, [])"
      "concat qs = all_tasks" "map length qs = map (rank_share ?per ?extra) [0..<p]"
    unfolding total by auto
  from qs(3) have len: "length qs = p"
    using length_map [of length qs] by simp
  have each: "length (qs ! rank) = ?per + (if rank < ?extra then 1 else 0)" if "rank < p" for rank
  proof -
    from that len have "length (qs ! rank) = map length qs ! rank"
      by simp
    also have "\<dots> = rank_share ?per ?extra rank"
      using that by (simp add: qs(3))
    finally show ?thesis
      by (simp add: rank_share_def)
  qed
  have "share_tasks all_tasks p = Inr qs"
    using assms qs(1) by (simp add: share_tasks_def)
  with len qs(2) each have first: "\<exists>tasks. share_tasks all_tasks p = Inr tasks
            \<and> length tasks = p \<and> concat tasks = all_tasks
            \<and> (\<forall>rank<p. length (tasks ! rank)
                  = length all_tasks div p + (if rank < length all_tasks mod p then 1 else 0))"
    by blast
  have second: "\<forall>rank<p. nr_local nr_parts p rank
             = nr_parts div int p + (if int rank < nr_parts mod int p then 1 else 0)"
    by (simp add: nr_local_def Let_def)
  have fourth: "map (nr_local 20 3) [0, 1, 2] = [7, 7, 6]"
    by (simp add: nr_local_def)
  from first second sum_nr_local [OF assms] fourth show ?thesis
    by blast
qed

theorem share_tasks_balanced_witness:
  "(0::nat) < 3
   \<and> share_tasks [10, 11, 12, 13, 14 :: nat] 3 = Inr [[10, 11], [12, 13], [14]]
   \<and> (\<exists>tasks. share_tasks [10, 11, 12, 13, 14 :: nat] 3 = Inr tasks
         \<and> length tasks = 3 \<and> concat tasks = [10, 11, 12, 13, 14]
         \<and> (\<forall>rank<3. length (tasks ! rank)
               = length [10, 11, 12, 13, 14 :: nat] div 3
                 + (if rank < length [10, 11, 12, 13, 14 :: nat] mod 3 then 1 else 0)))
   \<and> (\<Sum>rank<3. nr_local 20 3 rank) = 20"
proof -
  have p: "(0::nat) < 3"
    by simp
  have v: "share_tasks [10, 11, 12, 13, 14 :: nat] 3 = Inr [[10, 11], [12, 13], [14]]"
    by code_simp
  from share_tasks_balanced [OF p, of "[10, 11, 12, 13, 14 :: nat]" 20] p v show ?thesis
    by blast
qed

section \<open>Properties of the read planner\<close>

subsection \<open>The store\<close>

lemma merge_fold_st:
  "foldl (merge_step_st m a) s ixs
     = s\<lparr>arrays := (arrays s)(a := foldl (merge_step m) (arrays s a) ixs)\<rparr>"
  by (induction ixs arbitrary: s) (simp_all add: merge_step_st_def)

lemma merge_loop_st_eq:
  "merge_loop_st m a s = s\<lparr>arrays := (arrays s)(a := merge_loop m (arrays s a))\<rparr>"
  by (simp add: merge_loop_st_def merge_loop_def merge_fold_st)

lemma prepare_read_unfold:
  "prepare_read self ptype msk s =
     (case cell self ptype of
        None \<Rightarrow> Inl KeyError
      | Some r \<Rightarrow>
          (case boolean_index (dimension self) (arrays s r) msk of
             Inl e \<Rightarrow> Inl e
           | Inr selected \<Rightarrow>
               (case add_reads
                       (map (\<lambda>f. (f, [])) (np_unique (map file_nr (planned_cells selected))))
                       0 (planned_cells selected) of
                  Inl e \<Rightarrow> Inl e
                | Inr reads \<Rightarrow>
                    Inr (reads,
                      \<lparr>arrays = (arrays s)
                         (next_ref s := selected,
                          Suc (next_ref s) := selected,
                          Suc (Suc (next_ref s)) := discard_empty selected,
                          Suc (Suc (Suc (next_ref s))) :=
                            merge_loop max_size
                              (take_cells (discard_empty selected)
                                 (lexsort (discard_empty selected))),
                          Suc (Suc (Suc (Suc (next_ref s)))) := planned_cells selected),
                       next_ref = Suc (Suc (Suc (Suc (Suc (next_ref s)))))\<rparr>))))"
  by (simp add: prepare_read_def alloc_def merge_loop_st_eq planned_cells_def
      merge_adjacent_def Let_def split: option.split sum.split)

lemma prepare_read_frame:
  assumes "prepare_read self ptype msk s = Inr (reads, s')"
    and "a < next_ref s"
  shows "arrays s' a = arrays s a"
  using assms
  by (auto simp: prepare_read_unfold split: option.splits sum.splits)

subsection \<open>Sorting the selected cells\<close>

lemma insort_key_map:
  "insort_key f (g x) (map g ys) = map g (insort_key (\<lambda>y. f (g y)) x ys)"
  by (induction ys) simp_all

lemma sort_key_map:
  "sort_key f (map g xs) = map g (sort_key (\<lambda>y. f (g y)) xs)"
  by (induction xs) (simp_all add: insort_key_map)

lemma take_cells_lexsort: "take_cells cells (lexsort cells) = sort_key cell_key cells"
proof -
  have "sort_key cell_key (map (\<lambda>i. cells ! i) [0..<length cells])
      = map (\<lambda>i. cells ! i) (sort_key (\<lambda>i. cell_key (cells ! i)) [0..<length cells])"
    by (rule sort_key_map)
  then show ?thesis
    by (simp add: take_cells_def lexsort_def cell_key_def map_nth)
qed

lemma sum_insort_key:
  "sum_list (map h (insort_key f x ys)) = h x + sum_list (map h ys)" for h :: "'a \<Rightarrow> int"
  by (induction ys) simp_all

lemma sum_sort_key:
  "sum_list (map h (sort_key f xs)) = sum_list (map h xs)" for h :: "'a \<Rightarrow> int"
  by (induction xs) (simp_all add: sum_insort_key)

subsection \<open>The merge pass keeps the order and the number of particles\<close>

lemma merge_walk_lower:
  "\<forall>c \<in> set cs. b \<le> cell_key c \<Longrightarrow> c \<in> set (merge_walk m cs) \<Longrightarrow> b \<le> cell_key c"
proof (induction m cs arbitrary: c rule: merge_walk.induct)
  case (1 m c1 c2 cs)
  show ?case
  proof (cases "mergeable m c1 c2")
    case True
    let ?c2 = "c2\<lparr>count := add64 (count c2) (count c1), offset := offset c1\<rparr>"
    have "cell_key ?c2 = cell_key c1"
      using True by (simp add: cell_key_def mergeable_def)
    with "1.prems"(1) have "\<forall>c \<in> set (?c2 # cs). b \<le> cell_key c"
      by simp
    from "1.IH"(1) [OF True this] "1.prems" True show ?thesis
      by (auto simp: cell_key_def)
  next
    case False
    from "1.prems"(1) have "\<forall>c \<in> set (c2 # cs). b \<le> cell_key c"
      by simp
    from "1.IH"(2) [OF False this] "1.prems" False show ?thesis
      by auto
  qed
qed simp_all

lemma merge_walk_sorted:
  "sorted (map cell_key cs) \<Longrightarrow> sorted (map cell_key (merge_walk m cs))"
proof (induction m cs rule: merge_walk.induct)
  case (1 m c1 c2 cs)
  from "1.prems" have le: "cell_key c1 \<le> cell_key c2" "\<forall>c \<in> set cs. cell_key c2 \<le> cell_key c"
    and rest: "sorted (map cell_key cs)"
    by auto
  show ?case
  proof (cases "mergeable m c1 c2")
    case True
    let ?c1 = "c1\<lparr>count := 0\<rparr>"
    let ?c2 = "c2\<lparr>count := add64 (count c2) (count c1), offset := offset c1\<rparr>"
    have k2: "cell_key ?c2 = cell_key c1"
      using True by (simp add: cell_key_def mergeable_def)
    have k1: "cell_key ?c1 = cell_key c1"
      by (simp add: cell_key_def)
    have above: "\<forall>c \<in> set (?c2 # cs). cell_key c1 \<le> cell_key c"
      using le k2 by (auto intro: order_trans)
    then have "sorted (map cell_key (?c2 # cs))"
      using rest k2 by simp
    from "1.IH"(1) [OF True this]
    have "sorted (map cell_key (merge_walk m (?c2 # cs)))" .
    moreover have "\<forall>c \<in> set (merge_walk m (?c2 # cs)). cell_key c1 \<le> cell_key c"
      using merge_walk_lower [OF above] by blast
    ultimately show ?thesis
      using True k1 by simp
  next
    case False
    from "1.prems" have "sorted (map cell_key (c2 # cs))"
      by simp
    from "1.IH"(2) [OF False this]
    have "sorted (map cell_key (merge_walk m (c2 # cs)))" .
    moreover have "\<forall>c \<in> set (c2 # cs). cell_key c1 \<le> cell_key c"
      using le by (auto intro: order_trans)
    then have "\<forall>c \<in> set (merge_walk m (c2 # cs)). cell_key c1 \<le> cell_key c"
      using merge_walk_lower by blast
    ultimately show ?thesis
      using False by simp
  qed
qed simp_all

lemma merge_walk_sum:
  "\<forall>c \<in> set cs. 0 \<le> count c \<Longrightarrow> sum_list (map count cs) < 2 ^ 63 \<Longrightarrow>
     sum_list (map count (merge_walk m cs)) = sum_list (map count cs)
     \<and> (\<forall>c \<in> set (merge_walk m cs). 0 \<le> count c)"
proof (induction m cs rule: merge_walk.induct)
  case (1 m c1 c2 cs)
  from "1.prems" have nn: "0 \<le> count c1" "0 \<le> count c2" "\<forall>c \<in> set cs. 0 \<le> count c"
    by simp_all
  then have "0 \<le> sum_list (map count cs)"
    by (intro sum_list_nonneg) auto
  with "1.prems"(2) nn have small: "count c2 + count c1 < 2 ^ 63"
    by simp
  with nn have w: "add64 (count c2) (count c1) = count c2 + count c1"
    by (simp add: add64_def wrap64_id)
  show ?case
  proof (cases "mergeable m c1 c2")
    case True
    let ?c2 = "c2\<lparr>count := add64 (count c2) (count c1), offset := offset c1\<rparr>"
    have "\<forall>c \<in> set (?c2 # cs). 0 \<le> count c"
      using nn w by simp
    moreover have "sum_list (map count (?c2 # cs)) < 2 ^ 63"
      using "1.prems"(2) w by (simp add: add.commute add.left_commute)
    ultimately have "sum_list (map count (merge_walk m (?c2 # cs))) = sum_list (map count (?c2 # cs))
      \<and> (\<forall>c \<in> set (merge_walk m (?c2 # cs)). 0 \<le> count c)"
      by (rule "1.IH"(1) [OF True])
    with True w show ?thesis
      by simp
  next
    case False
    have "\<forall>c \<in> set (c2 # cs). 0 \<le> count c"
      using nn by simp
    moreover have "sum_list (map count (c2 # cs)) < 2 ^ 63"
      using "1.prems"(2) nn by simp
    ultimately have "sum_list (map count (merge_walk m (c2 # cs))) = sum_list (map count (c2 # cs))
      \<and> (\<forall>c \<in> set (merge_walk m (c2 # cs)). 0 \<le> count c)"
      by (rule "1.IH"(2) [OF False])
    with False nn show ?thesis
      by simp
  qed
qed simp_all

lemma sum_discard_empty:
  "\<forall>c \<in> set cs. 0 \<le> count c \<Longrightarrow>
     sum_list (map count (discard_empty cs)) = sum_list (map count cs)"
  by (induction cs) (auto simp: discard_empty_def)

lemma planned_cells_sorted: "sorted (map cell_key (planned_cells selected))"
proof -
  have "sorted (map cell_key (sort_key cell_key (discard_empty selected)))"
    by (rule sorted_sort_key)
  then have "sorted (map cell_key (merge_walk max_size (sort_key cell_key (discard_empty selected))))"
    by (rule merge_walk_sorted)
  then show ?thesis
    by (simp add: planned_cells_def merge_adjacent_def merge_loop_eq_walk take_cells_lexsort
        discard_empty_def sorted_filter)
qed

lemma planned_cells_positive: "c \<in> set (planned_cells selected) \<Longrightarrow> 0 < count c"
  by (simp add: planned_cells_def merge_adjacent_def discard_empty_def)

lemma planned_cells_sum:
  assumes "sum_list (map count (discard_empty selected)) < 2 ^ 63"
  shows "sum_list (map count (planned_cells selected))
           = sum_list (map count (discard_empty selected))"
proof -
  let ?ne = "discard_empty selected"
  let ?sorted = "sort_key cell_key ?ne"
  have pos: "\<forall>c \<in> set ?sorted. 0 \<le> count c"
    by (auto simp: discard_empty_def)
  have sum: "sum_list (map count ?sorted) = sum_list (map count ?ne)"
    by (rule sum_sort_key)
  with assms have "sum_list (map count ?sorted) < 2 ^ 63"
    by simp
  from merge_walk_sum [OF pos this, of max_size]
  have "sum_list (map count (merge_walk max_size ?sorted)) = sum_list (map count ?sorted)"
    and "\<forall>c \<in> set (merge_walk max_size ?sorted). 0 \<le> count c"
    by simp_all
  then show ?thesis
    using sum
    by (simp add: planned_cells_def merge_adjacent_def merge_loop_eq_walk take_cells_lexsort
        sum_discard_empty)
qed

text \<open>
  Claim C1. Every range that leaves the merge pass is either a cell of the input, left
  as it was, or has a count of at most the cap; so every range \<open>prepare_read\<close> plans is a
  selected cell or has at most \<open>max_size\<close> particles. Three adjacent cells of one file with
  counts 5, 5 and 5 become one range of count 15 at the offset of the first cell when
  the cap is 15, and the two ranges of counts 10 and 5 when the cap is 10.
\<close>

theorem merge_pass_respects_cap:
  "(\<forall>c \<in> set (merge_adjacent cap cells). c \<in> set cells \<or> count c \<le> cap)
   \<and> (\<forall>c \<in> set (planned_cells selected). c \<in> set selected \<or> count c \<le> max_size)
   \<and> (0 \<le> off \<and> off + 15 < 2 ^ 63 \<longrightarrow>
        merge_adjacent 15
          [\<lparr>centre = x1, count = 5, offset = off, file_nr = f, order = o1\<rparr>,
           \<lparr>centre = x2, count = 5, offset = off + 5, file_nr = f, order = o2\<rparr>,
           \<lparr>centre = x3, count = 5, offset = off + 10, file_nr = f, order = o3\<rparr>]
        = [\<lparr>centre = x3, count = 15, offset = off, file_nr = f, order = o3\<rparr>]
      \<and> merge_adjacent 10
          [\<lparr>centre = x1, count = 5, offset = off, file_nr = f, order = o1\<rparr>,
           \<lparr>centre = x2, count = 5, offset = off + 5, file_nr = f, order = o2\<rparr>,
           \<lparr>centre = x3, count = 5, offset = off + 10, file_nr = f, order = o3\<rparr>]
        = [\<lparr>centre = x2, count = 10, offset = off, file_nr = f, order = o2\<rparr>,
           \<lparr>centre = x3, count = 5, offset = off + 10, file_nr = f, order = o3\<rparr>])"
proof (intro conjI ballI impI)
  fix c
  assume "c \<in> set (merge_adjacent cap cells)"
  then show "c \<in> set cells \<or> count c \<le> cap"
    by (rule merge_adjacent_cap)
next
  fix c
  assume "c \<in> set (planned_cells selected)"
  then have "c \<in> set (sort_key cell_key (discard_empty selected)) \<or> count c \<le> max_size"
    unfolding planned_cells_def take_cells_lexsort by (rule merge_adjacent_cap)
  then show "c \<in> set selected \<or> count c \<le> max_size"
    by (auto simp: discard_empty_def)
next
  assume r: "0 \<le> off \<and> off + 15 < 2 ^ 63"
  then have w: "wrap64 (off + 5) = off + 5" "wrap64 (off + 10) = off + 10"
    by (simp_all add: wrap64_id)
  have n: "wrap64 10 = 10" "wrap64 15 = 15"
    by (simp_all add: wrap64_def)
  show "merge_adjacent 15
          [\<lparr>centre = x1, count = 5, offset = off, file_nr = f, order = o1\<rparr>,
           \<lparr>centre = x2, count = 5, offset = off + 5, file_nr = f, order = o2\<rparr>,
           \<lparr>centre = x3, count = 5, offset = off + 10, file_nr = f, order = o3\<rparr>]
        = [\<lparr>centre = x3, count = 15, offset = off, file_nr = f, order = o3\<rparr>]"
    by (simp add: merge_adjacent_def discard_empty_def merge_loop_eq_walk mergeable_def
        add64_def w n)
  show "merge_adjacent 10
          [\<lparr>centre = x1, count = 5, offset = off, file_nr = f, order = o1\<rparr>,
           \<lparr>centre = x2, count = 5, offset = off + 5, file_nr = f, order = o2\<rparr>,
           \<lparr>centre = x3, count = 5, offset = off + 10, file_nr = f, order = o3\<rparr>]
        = [\<lparr>centre = x2, count = 10, offset = off, file_nr = f, order = o2\<rparr>,
           \<lparr>centre = x3, count = 5, offset = off + 10, file_nr = f, order = o3\<rparr>]"
    by (simp add: merge_adjacent_def discard_empty_def merge_loop_eq_walk mergeable_def
        add64_def w n)
qed

theorem merge_pass_respects_cap_witness:
  "list_all
      (\<lambda>c. c \<in> set [demo_cell 7 0 0 0, demo_cell 2 7 0 1, demo_cell 6 9 0 2] \<or> count c \<le> 10)
      (merge_adjacent 10 [demo_cell 7 0 0 0, demo_cell 2 7 0 1, demo_cell 6 9 0 2])
   \<and> merge_adjacent 10 [demo_cell 7 0 0 0, demo_cell 2 7 0 1, demo_cell 6 9 0 2]
       = [demo_cell 9 0 0 1, demo_cell 6 9 0 2]
   \<and> list_all
        (\<lambda>c. c \<in> set [demo_cell 0 0 0 1, demo_cell 4 4 0 2, demo_cell 4 8 0 3, demo_cell 4 0 1 6]
           \<or> count c \<le> max_size)
        (planned_cells [demo_cell 0 0 0 1, demo_cell 4 4 0 2, demo_cell 4 8 0 3, demo_cell 4 0 1 6])
   \<and> planned_cells [demo_cell 0 0 0 1, demo_cell 4 4 0 2, demo_cell 4 8 0 3, demo_cell 4 0 1 6]
       = [demo_cell 8 4 0 3, demo_cell 4 0 1 6]
   \<and> (0::int) \<le> 100 \<and> (100::int) + 15 < 2 ^ 63
   \<and> merge_adjacent 15
        [\<lparr>centre = (0, 0, 0), count = 5, offset = 100, file_nr = 1, order = 0\<rparr>,
         \<lparr>centre = (1, 0, 0), count = 5, offset = 100 + 5, file_nr = 1, order = 1\<rparr>,
         \<lparr>centre = (2, 0, 0), count = 5, offset = 100 + 10, file_nr = 1, order = 2\<rparr>]
       = [\<lparr>centre = (2, 0, 0), count = 15, offset = 100, file_nr = 1, order = 2\<rparr>]
   \<and> merge_adjacent 10
        [\<lparr>centre = (0, 0, 0), count = 5, offset = 100, file_nr = 1, order = 0\<rparr>,
         \<lparr>centre = (1, 0, 0), count = 5, offset = 100 + 5, file_nr = 1, order = 1\<rparr>,
         \<lparr>centre = (2, 0, 0), count = 5, offset = 100 + 10, file_nr = 1, order = 2\<rparr>]
       = [\<lparr>centre = (1, 0, 0), count = 10, offset = 100, file_nr = 1, order = 1\<rparr>,
          \<lparr>centre = (2, 0, 0), count = 5, offset = 100 + 10, file_nr = 1, order = 2\<rparr>]"
proof -
  let ?run = "[demo_cell 7 0 0 0, demo_cell 2 7 0 1, demo_cell 6 9 0 2]"
  let ?sel = "[demo_cell 0 0 0 1, demo_cell 4 4 0 2, demo_cell 4 8 0 3, demo_cell 4 0 1 6]"
  have ex: "merge_adjacent 10 ?run = [demo_cell 9 0 0 1, demo_cell 6 9 0 2]"
    by (simp add: merge_adjacent_def discard_empty_def merge_loop_eq_walk mergeable_def
        add64_def wrap64_def demo_cell_def)
  have pl: "planned_cells ?sel = [demo_cell 8 4 0 3, demo_cell 4 0 1 6]"
    by (simp add: planned_cells_def take_cells_lexsort merge_adjacent_def merge_loop_eq_walk
        discard_empty_def demo_cell_def cell_key_def mergeable_def add64_def wrap64_def max_size_def)
  have r: "(0::int) \<le> 100 \<and> (100::int) + 15 < 2 ^ 63"
    by simp
  note t = merge_pass_respects_cap
    [of 10 ?run ?sel 100 "(0, 0, 0)" 1 0 "(1, 0, 0)" 1 "(2, 0, 0)" 2]
  from t [THEN conjunct1] have a: "list_all
      (\<lambda>c. c \<in> set ?run \<or> count c \<le> 10) (merge_adjacent 10 ?run)"
    unfolding list_all_iff .
  from t [THEN conjunct2, THEN conjunct1] have b: "list_all
      (\<lambda>c. c \<in> set ?sel \<or> count c \<le> max_size) (planned_cells ?sel)"
    unfolding list_all_iff .
  from t [THEN conjunct2, THEN conjunct2, rule_format, OF r] a b ex pl r show ?thesis
    by blast
qed

subsection \<open>Grouping the ranges by file\<close>

lemma dict_append_map:
  "k \<in> fst ` set d \<Longrightarrow> distinct (map fst d) \<Longrightarrow>
     dict_append k v d = Inr (map (\<lambda>(k', vs). (k', if k' = k then vs @ [v] else vs)) d)"
proof (induction d)
  case Nil
  then show ?case by simp
next
  case (Cons p d)
  obtain k' vs where p: "p = (k', vs)"
    by (cases p)
  show ?case
  proof (cases "k = k'")
    case True
    with Cons.prems p have "k \<notin> fst ` set d"
      by auto
    then have "map (\<lambda>(k', vs). (k', if k' = k then vs @ [v] else vs)) d = d"
      by (intro map_idI) (auto simp: rev_image_eqI)
    with True p show ?thesis
      by simp
  next
    case False
    with Cons.prems p have "k \<in> fst ` set d" "distinct (map fst d)"
      by auto
    from Cons.IH [OF this] False p show ?thesis
      by simp
  qed
qed

lemma ranges_of_file_Cons:
  "ranges_of_file f ((f', r) # t) = (if f' = f then r # ranges_of_file f t else ranges_of_file f t)"
  by (simp add: ranges_of_file_def)

lemma add_reads_grouped:
  "file_nr ` set cs \<subseteq> fst ` set reads \<Longrightarrow> distinct (map fst reads) \<Longrightarrow>
     add_reads reads m cs
       = Inr (map (\<lambda>(f, rs).
                (f, rs @ ranges_of_file f (zip (map file_nr cs) (wrapped_ranges m cs)))) reads)"
proof (induction cs arbitrary: reads m)
  case Nil
  show ?case
    by (simp add: ranges_of_file_def case_prod_unfold)
next
  case (Cons c cs)
  let ?r = "(offset c, m, count c)"
  let ?reads = "map (\<lambda>(k', vs). (k', if k' = file_nr c then vs @ [?r] else vs)) reads"
  from Cons.prems have "file_nr c \<in> fst ` set reads"
    by simp
  from dict_append_map [OF this Cons.prems(2)]
  have app: "dict_append (file_nr c) ?r reads = Inr ?reads" .
  have keys: "map fst ?reads = map fst reads"
    by (simp add: case_prod_unfold comp_def)
  then have "fst ` set ?reads = fst ` set reads"
    by (metis list.set_map)
  with Cons.prems(1) have sub: "file_nr ` set cs \<subseteq> fst ` set ?reads"
    by simp
  have dist: "distinct (map fst ?reads)"
    unfolding keys by (rule Cons.prems(2))
  have "add_reads reads m (c # cs) = add_reads ?reads (add64 m (count c)) cs"
    by (simp add: app)
  also have "\<dots> = Inr (map (\<lambda>(f, rs).
                (f, rs @ ranges_of_file f
                  (zip (map file_nr cs) (wrapped_ranges (add64 m (count c)) cs)))) ?reads)"
    by (rule Cons.IH [OF sub dist])
  also have "map (\<lambda>(f, rs).
                (f, rs @ ranges_of_file f
                  (zip (map file_nr cs) (wrapped_ranges (add64 m (count c)) cs)))) ?reads
      = map (\<lambda>(f, rs).
                (f, rs @ ranges_of_file f
                  (zip (map file_nr (c # cs)) (wrapped_ranges m (c # cs))))) reads"
    by (simp add: case_prod_unfold ranges_of_file_Cons)
  finally show ?case .
qed

lemma wrapped_eq_running:
  "\<forall>c \<in> set cs. 0 < count c \<Longrightarrow> 0 \<le> m \<Longrightarrow> m + sum_list (map count cs) < 2 ^ 63 \<Longrightarrow>
     wrapped_ranges m cs = running_ranges m cs"
proof (induction cs arbitrary: m)
  case Nil
  show ?case by simp
next
  case (Cons c cs)
  from Cons.prems have c: "0 < count c" and rest: "\<forall>c \<in> set cs. 0 < count c"
    by simp_all
  from rest have "0 \<le> sum_list (map count cs)"
    by (intro sum_list_nonneg) auto
  with Cons.prems c have "m + count c < 2 ^ 63" "0 \<le> m + count c"
    by simp_all
  then have w: "add64 m (count c) = m + count c"
    by (simp add: add64_def wrap64_id)
  have "wrapped_ranges (m + count c) cs = running_ranges (m + count c) cs"
    using Cons.prems c by (intro Cons.IH rest) (simp_all add: add.assoc)
  with w show ?case
    by simp
qed

lemma running_contiguous:
  "\<forall>c \<in> set cs. 0 < count c \<Longrightarrow>
     contiguous m (running_ranges m cs) (m + sum_list (map count cs))"
proof (induction cs arbitrary: m)
  case Nil
  show ?case by simp
next
  case (Cons c cs)
  then have "contiguous (m + count c) (running_ranges (m + count c) cs)
      (m + count c + sum_list (map count cs))"
    by simp
  with Cons.prems show ?case
    by (simp add: add.assoc)
qed

lemma split_least_key:
  "sorted (map fst t) \<Longrightarrow> \<forall>p \<in> set t. k \<le> fst p \<Longrightarrow>
     filter (\<lambda>p. fst p = k) t @ filter (\<lambda>p. fst p \<noteq> k) t = t"
  for t :: "(int \<times> 'a) list"
proof (induction t)
  case Nil
  show ?case by simp
next
  case (Cons x t)
  show ?case
  proof (cases "fst x = k")
    case True
    with Cons show ?thesis
      by simp
  next
    case False
    with Cons.prems have "\<forall>p \<in> set t. fst p \<noteq> k"
      by fastforce
    then have "filter (\<lambda>p. fst p = k) t = []" "filter (\<lambda>p. fst p \<noteq> k) t = t"
      by (simp_all add: filter_empty_conv filter_id_conv)
    with False show ?thesis
      by simp
  qed
qed

lemma group_sorted_concat:
  "sorted (map fst t) \<Longrightarrow> sorted ks \<Longrightarrow> distinct ks \<Longrightarrow> fst ` set t \<subseteq> set ks \<Longrightarrow>
     concat (map (\<lambda>k. ranges_of_file k t) ks) = map snd t"
proof (induction ks arbitrary: t)
  case Nil
  then show ?case by simp
next
  case (Cons k ks)
  let ?t1 = "filter (\<lambda>p. fst p = k) t"
  let ?t2 = "filter (\<lambda>p. fst p \<noteq> k) t"
  from Cons.prems have least: "\<forall>p \<in> set t. k \<le> fst p"
    by auto
  from split_least_key [OF Cons.prems(1) least] have split: "?t1 @ ?t2 = t" .
  have s2: "sorted (map fst ?t2)"
    using Cons.prems(1) by (rule sorted_filter)
  have k2: "fst ` set ?t2 \<subseteq> set ks"
    using Cons.prems(4) by auto
  from Cons.prems have sk: "sorted ks" "distinct ks" "k \<notin> set ks"
    by simp_all
  have same: "ranges_of_file k' t = ranges_of_file k' ?t2" if "k' \<in> set ks" for k'
  proof -
    from that sk(3) have "k' \<noteq> k"
      by auto
    then have "filter (\<lambda>p. fst p = k') ?t2 = filter (\<lambda>p. fst p = k') t"
      by (auto intro: filter_cong)
    then show ?thesis
      by (simp add: ranges_of_file_def)
  qed
  have "concat (map (\<lambda>k'. ranges_of_file k' t) ks) = concat (map (\<lambda>k'. ranges_of_file k' ?t2) ks)"
    using same by (auto intro: arg_cong [where f = concat] map_cong)
  also have "\<dots> = map snd ?t2"
    by (rule Cons.IH [OF s2 sk(1) sk(2) k2])
  finally have "concat (map (\<lambda>k'. ranges_of_file k' t) (k # ks)) = map snd ?t1 @ map snd ?t2"
    by (simp add: ranges_of_file_def)
  also have "\<dots> = map snd t"
    using split by (metis map_append)
  finally show ?case .
qed

lemma np_unique_props:
  "sorted (np_unique xs)" "distinct (np_unique xs)" "set (np_unique xs) = set xs"
  by (simp_all add: np_unique_def)

lemma prepare_read_result:
  assumes "cell self ptype = Some r"
    and "boolean_index (dimension self) (arrays s r) msk = Inr selected"
  shows "\<exists>s'. prepare_read self ptype msk s
           = Inr (map (\<lambda>f. (f, ranges_of_file f
                     (zip (map file_nr (planned_cells selected))
                        (wrapped_ranges 0 (planned_cells selected)))))
                   (np_unique (map file_nr (planned_cells selected))), s')
         \<and> (\<forall>a<next_ref s. arrays s' a = arrays s a)
         \<and> arrays s' (next_ref s + 3)
             = merge_loop max_size
                 (take_cells (discard_empty selected) (lexsort (discard_empty selected)))"
proof -
  let ?cells = "planned_cells selected"
  let ?ks = "np_unique (map file_nr ?cells)"
  let ?init = "map (\<lambda>f. (f, [])) ?ks :: reads"
  have keys: "map fst ?init = ?ks"
    by (simp add: comp_def)
  have "file_nr ` set ?cells \<subseteq> fst ` set ?init" "distinct (map fst ?init)"
    unfolding keys by (simp_all add: np_unique_props image_image)
  from add_reads_grouped [OF this, of 0]
  have "add_reads ?init 0 ?cells
      = Inr (map (\<lambda>f. (f, ranges_of_file f (zip (map file_nr ?cells) (wrapped_ranges 0 ?cells)))) ?ks)"
    by (simp add: comp_def)
  with assms show ?thesis
    by (simp add: prepare_read_unfold numeral_3_eq_3)
qed

text \<open>
  Claim C3. When the call reaches the planner (the particle type is in the grid and the
  mask has the shape of the grid) and the selected cells hold fewer than \<open>2^63\<close>
  particles, \<open>prepare_read\<close> returns. The keys of its result are the file numbers of the
  planned cells, ascending and distinct; the ranges, read file by file, are the planned
  cells in the order of file and offset, each with the running sum of the counts before it
  as memory offset, so that they tile the interval from 0 to the number of selected
  particles; and the entry of a file holds exactly the ranges of the cells of that file.
\<close>

theorem prepare_read_partition:
  assumes "cell self ptype = Some r"
    and "boolean_index (dimension self) (arrays s r) msk = Inr selected"
    and "sum_list (map count (discard_empty selected)) < 2 ^ 63"
  shows "\<exists>reads s'.
           prepare_read self ptype msk s = Inr (reads, s')
         \<and> sorted (map cell_key (planned_cells selected))
         \<and> map fst reads = np_unique (map file_nr (planned_cells selected))
         \<and> sorted (map fst reads) \<and> distinct (map fst reads)
         \<and> concat (map snd reads) = running_ranges 0 (planned_cells selected)
         \<and> contiguous 0 (concat (map snd reads))
               (sum_list (map count (discard_empty selected)))
         \<and> (\<forall>(f, rs) \<in> set reads.
               rs = ranges_of_file f
                      (zip (map file_nr (planned_cells selected))
                         (running_ranges 0 (planned_cells selected))))"
proof -
  let ?cells = "planned_cells selected"
  let ?ks = "np_unique (map file_nr ?cells)"
  let ?total = "sum_list (map count (discard_empty selected))"
  let ?tagged = "zip (map file_nr ?cells) (running_ranges 0 ?cells)"
  let ?reads = "map (\<lambda>f. (f, ranges_of_file f ?tagged)) ?ks"
  have pos: "\<forall>c \<in> set ?cells. 0 < count c"
    by (simp add: planned_cells_positive)
  have sum: "sum_list (map count ?cells) = ?total"
    using assms(3) by (rule planned_cells_sum)
  have wr: "wrapped_ranges 0 ?cells = running_ranges 0 ?cells"
    using pos assms(3) by (intro wrapped_eq_running) (simp_all add: sum)
  from prepare_read_result [OF assms(1,2)] obtain s' where
    run: "prepare_read self ptype msk s = Inr (?reads, s')"
    unfolding wr by blast
  have len: "length (running_ranges m cs) = length cs" for m cs
    by (induction cs arbitrary: m) simp_all
  have tag: "map fst ?tagged = map file_nr ?cells" "map snd ?tagged = running_ranges 0 ?cells"
    by (simp_all add: len)
  have "sorted (map file_nr ?cells)"
    using planned_cells_sorted [of selected]
    by (simp add: sorted_map cell_key_def sorted_wrt_iff_nth_less less_eq_prod_def)
       (metis order.strict_iff_order)
  then have st: "sorted (map fst ?tagged)"
    by (simp only: tag)
  have "fst ` set ?tagged \<subseteq> set ?ks"
    using tag(1) by (metis list.set_map np_unique_props(3) order_refl)
  from group_sorted_concat [OF st np_unique_props(1) np_unique_props(2) this]
  have cat: "concat (map snd ?reads) = running_ranges 0 ?cells"
    by (simp add: comp_def tag)
  have "contiguous 0 (running_ranges 0 ?cells) (0 + sum_list (map count ?cells))"
    using pos by (rule running_contiguous)
  then have tile: "contiguous 0 (concat (map snd ?reads)) ?total"
    by (simp only: cat sum add_0)
  have keys: "map fst ?reads = ?ks"
    by (simp add: comp_def)
  have own: "\<forall>(f, rs) \<in> set ?reads. rs = ranges_of_file f ?tagged"
    by auto
  from run planned_cells_sorted keys np_unique_props(1,2) cat tile own show ?thesis
    by (metis (no_types, lifting))
qed

theorem prepare_read_partition_witness:
  "cell demo_grid ''PartType0'' = Some 0
   \<and> boolean_index (dimension demo_grid) (arrays demo_store 0) demo_mask
       = Inr [demo_cell 0 0 0 1, demo_cell 4 4 0 2, demo_cell 4 8 0 3, demo_cell 4 0 1 6]
   \<and> sum_list (map count (discard_empty
         [demo_cell 0 0 0 1, demo_cell 4 4 0 2, demo_cell 4 8 0 3, demo_cell 4 0 1 6])) = 12
   \<and> map_sum id fst (prepare_read demo_grid ''PartType0'' demo_mask demo_store)
       = Inr [(0, [(4, 0, 8)]), (1, [(0, 8, 4)])]
   \<and> (\<exists>reads s'.
         prepare_read demo_grid ''PartType0'' demo_mask demo_store = Inr (reads, s')
       \<and> concat (map snd reads)
           = running_ranges 0 (planned_cells
               [demo_cell 0 0 0 1, demo_cell 4 4 0 2, demo_cell 4 8 0 3, demo_cell 4 0 1 6])
       \<and> contiguous 0 (concat (map snd reads)) 12)"
proof -
  let ?sel = "[demo_cell 0 0 0 1, demo_cell 4 4 0 2, demo_cell 4 8 0 3, demo_cell 4 0 1 6]"
  have g: "cell demo_grid ''PartType0'' = Some 0"
    by (simp add: demo_grid_def)
  have b: "boolean_index (dimension demo_grid) (arrays demo_store 0) demo_mask = Inr ?sel"
    by (simp add: boolean_index_def demo_grid_def demo_store_def demo_mask_def demo_cells_def
        mask_shape_def)
  have n: "sum_list (map count (discard_empty ?sel)) = 12"
    by (simp add: discard_empty_def demo_cell_def)
  then have small: "sum_list (map count (discard_empty ?sel)) < 2 ^ 63"
    by simp
  have v: "map_sum id fst (prepare_read demo_grid ''PartType0'' demo_mask demo_store)
       = Inr [(0, [(4, 0, 8)]), (1, [(0, 8, 4)])]"
    by code_simp
  from prepare_read_partition [OF g b small] have "\<exists>reads s'.
         prepare_read demo_grid ''PartType0'' demo_mask demo_store = Inr (reads, s')
       \<and> concat (map snd reads) = running_ranges 0 (planned_cells ?sel)
       \<and> contiguous 0 (concat (map snd reads)) 12"
    unfolding n by blast
  with g b n v show ?thesis
    by blast
qed

text \<open>
  Claim C10. A call of \<open>prepare_read\<close> that reaches the planner returns, and every array
  that existed before the call, the arrays of the grid among them, is the same after it,
  cell by cell and field by field. The merge loop has written into an array of its own:
  the fourth array the call has made holds the result of the loop, with the counts it has
  set to zero.
\<close>

theorem prepare_read_leaves_grid:
  assumes "cell self ptype = Some r"
    and "boolean_index (dimension self) (arrays s r) msk = Inr selected"
    and "\<forall>p a. cell self p = Some a \<longrightarrow> a < next_ref s"
  shows "\<exists>reads s'.
           prepare_read self ptype msk s = Inr (reads, s')
         \<and> (\<forall>p a. cell self p = Some a \<longrightarrow> arrays s' a = arrays s a)
         \<and> (\<forall>a<next_ref s. arrays s' a = arrays s a)
         \<and> arrays s' (next_ref s + 3)
             = merge_loop max_size
                 (take_cells (discard_empty selected) (lexsort (discard_empty selected)))"
  using prepare_read_result [OF assms(1,2)] assms(3) by blast

theorem prepare_read_leaves_grid_witness:
  "cell demo_grid ''PartType0'' = Some 0
   \<and> boolean_index (dimension demo_grid) (arrays demo_store 0) demo_mask
       = Inr [demo_cell 0 0 0 1, demo_cell 4 4 0 2, demo_cell 4 8 0 3, demo_cell 4 0 1 6]
   \<and> (\<exists>reads s'.
         prepare_read demo_grid ''PartType0'' demo_mask demo_store = Inr (reads, s')
       \<and> arrays s' 0 = demo_cells
       \<and> arrays s' 4 = [demo_cell 0 4 0 2, demo_cell 8 4 0 3, demo_cell 4 0 1 6])"
proof -
  let ?sel = "[demo_cell 0 0 0 1, demo_cell 4 4 0 2, demo_cell 4 8 0 3, demo_cell 4 0 1 6]"
  have g: "cell demo_grid ''PartType0'' = Some 0"
    by (simp add: demo_grid_def)
  have b: "boolean_index (dimension demo_grid) (arrays demo_store 0) demo_mask = Inr ?sel"
    by (simp add: boolean_index_def demo_grid_def demo_store_def demo_mask_def demo_cells_def
        mask_shape_def)
  have a: "\<forall>p a. cell demo_grid p = Some a \<longrightarrow> a < next_ref demo_store"
    by (simp add: demo_grid_def demo_store_def)
  have w: "merge_loop max_size (take_cells (discard_empty ?sel) (lexsort (discard_empty ?sel)))
      = [demo_cell 0 4 0 2, demo_cell 8 4 0 3, demo_cell 4 0 1 6]"
    by (simp add: take_cells_lexsort merge_loop_eq_walk discard_empty_def demo_cell_def
        cell_key_def mergeable_def add64_def wrap64_def max_size_def)
  have s: "next_ref demo_store = 1" "arrays demo_store 0 = demo_cells"
    by (simp_all add: demo_store_def)
  from prepare_read_leaves_grid [OF g b a] g have "\<exists>reads s'.
         prepare_read demo_grid ''PartType0'' demo_mask demo_store = Inr (reads, s')
       \<and> arrays s' 0 = demo_cells
       \<and> arrays s' 4 = [demo_cell 0 4 0 2, demo_cell 8 4 0 3, demo_cell 4 0 1 6]"
    unfolding w s using s(2) by auto
  with g b show ?thesis
    by blast
qed

section \<open>Properties of the order of the cells\<close>

lemma wrap32_id: "- (2 ^ 31) \<le> x \<Longrightarrow> x < 2 ^ 31 \<Longrightarrow> wrap32 x = x"
  by (simp add: wrap32_def)

lemma lexsort_props:
  "length (lexsort cells) = length cells" "distinct (lexsort cells)"
  "set (lexsort cells) = {0..<length cells}"
  by (simp_all add: lexsort_def)

lemma insort_key_cong_key:
  "f x = g x \<Longrightarrow> \<forall>y \<in> set ys. f y = g y \<Longrightarrow> insort_key f x ys = insort_key g x ys"
  by (induction ys) simp_all

lemma sort_key_cong_key:
  "\<forall>x \<in> set xs. f x = g x \<Longrightarrow> sort_key f xs = sort_key g xs"
proof (induction xs)
  case Nil
  show ?case by simp
next
  case (Cons x xs)
  then have "sort_key f xs = sort_key g xs"
    by simp
  moreover have "insort_key f x (sort_key g xs) = insort_key g x (sort_key g xs)"
    using Cons.prems by (intro insort_key_cong_key) simp_all
  ultimately show ?case
    by simp
qed

lemma set_order_fold:
  "distinct ixs \<Longrightarrow> \<forall>i \<in> set ixs. i < length cg \<Longrightarrow>
     length (foldl set_order cg (enumerate m ixs)) = length cg
     \<and> (\<forall>j<length ixs. foldl set_order cg (enumerate m ixs) ! (ixs ! j)
            = (cg ! (ixs ! j))\<lparr>order := wrap32 (int (m + j))\<rparr>)
     \<and> (\<forall>i<length cg. i \<notin> set ixs \<longrightarrow> foldl set_order cg (enumerate m ixs) ! i = cg ! i)"
proof (induction ixs arbitrary: cg m)
  case Nil
  show ?case by simp
next
  case (Cons i ixs)
  let ?cg = "cg[i := (cg ! i)\<lparr>order := wrap32 (int m)\<rparr>]"
  let ?res = "foldl set_order ?cg (enumerate (Suc m) ixs)"
  have unroll: "foldl set_order cg (enumerate m (i # ixs)) = ?res"
    by (simp add: set_order_def)
  from Cons.prems have d: "distinct ixs" and fresh: "i \<notin> set ixs" and i: "i < length cg"
    and inr: "\<forall>i \<in> set ixs. i < length ?cg"
    by simp_all
  from Cons.IH [OF d inr, of "Suc m"] have
    len: "length ?res = length cg"
    and hit: "\<And>j. j < length ixs \<Longrightarrow>
                ?res ! (ixs ! j) = (?cg ! (ixs ! j))\<lparr>order := wrap32 (int (Suc m + j))\<rparr>"
    and miss: "\<And>k. k < length cg \<Longrightarrow> k \<notin> set ixs \<Longrightarrow> ?res ! k = ?cg ! k"
    by simp_all
  have "?res ! ((i # ixs) ! j) = (cg ! ((i # ixs) ! j))\<lparr>order := wrap32 (int (m + j))\<rparr>"
    if "j < length (i # ixs)" for j
  proof (cases j)
    case 0
    with miss [OF i fresh] i show ?thesis
      by simp
  next
    case (Suc j')
    with that have j': "j' < length ixs"
      by simp
    then have "ixs ! j' \<noteq> i"
      using fresh by (metis nth_mem)
    with hit [OF j'] Suc show ?thesis
      by simp
  qed
  moreover have "?res ! k = cg ! k" if "k < length cg" "k \<notin> set (i # ixs)" for k
    using that miss [of k] by simp
  ultimately show ?case
    unfolding unroll using len by blast
qed

lemma assign_order_length: "length (assign_order cellgrid) = length cellgrid"
proof -
  have "\<forall>i \<in> set (lexsort cellgrid). i < length cellgrid"
    by (simp add: lexsort_props)
  from set_order_fold [OF lexsort_props(2) this, of 0] show ?thesis
    by (simp add: assign_order_def)
qed

lemma assign_order_nth:
  assumes "length cellgrid \<le> 2 ^ 31" and "k < length cellgrid"
  shows "assign_order cellgrid ! (lexsort cellgrid ! k)
           = (cellgrid ! (lexsort cellgrid ! k))\<lparr>order := int k\<rparr>"
proof -
  have inr: "\<forall>i \<in> set (lexsort cellgrid). i < length cellgrid"
    by (simp add: lexsort_props)
  note f = set_order_fold [OF lexsort_props(2) inr, of 0]
  from assms have "k < 2 ^ 31"
    by simp
  then have "int k < int (2 ^ 31)"
    by (simp only: of_nat_less_iff)
  then have "wrap32 (int k) = int k"
    by (simp add: wrap32_id)
  with f assms(2) show ?thesis
    by (simp add: assign_order_def lexsort_props)
qed

lemma lexsort_onto:
  assumes "i < length cells"
  shows "\<exists>k<length cells. lexsort cells ! k = i"
proof -
  from assms have "i \<in> set (lexsort cells)"
    by (simp add: lexsort_props)
  then obtain k where "k < length (lexsort cells)" "lexsort cells ! k = i"
    by (auto simp: in_set_conv_nth)
  then show ?thesis
    by (auto simp: lexsort_props)
qed

lemma lexsort_nth_less: "k < length cells \<Longrightarrow> lexsort cells ! k < length cells"
  using lexsort_props(1,3) [of cells] by (metis atLeastLessThan_iff nth_mem)

lemma assign_order_keeps_key:
  assumes "length cellgrid \<le> 2 ^ 31" and "i < length cellgrid"
  shows "cell_key (assign_order cellgrid ! i) = cell_key (cellgrid ! i)"
    and "count (assign_order cellgrid ! i) = count (cellgrid ! i)"
    and "centre (assign_order cellgrid ! i) = centre (cellgrid ! i)"
proof -
  from lexsort_onto [OF assms(2)] obtain k where
    k: "k < length cellgrid" "lexsort cellgrid ! k = i"
    by blast
  from assign_order_nth [OF assms(1) k(1)] k(2)
  have "assign_order cellgrid ! i = (cellgrid ! i)\<lparr>order := int k\<rparr>"
    by simp
  then show "cell_key (assign_order cellgrid ! i) = cell_key (cellgrid ! i)"
    and "count (assign_order cellgrid ! i) = count (cellgrid ! i)"
    and "centre (assign_order cellgrid ! i) = centre (cellgrid ! i)"
    by (simp_all add: cell_key_def)
qed

lemma lexsort_assign_order:
  assumes "length cellgrid \<le> 2 ^ 31"
  shows "lexsort (assign_order cellgrid) = lexsort cellgrid"
proof -
  have "\<forall>i \<in> set [0..<length cellgrid].
      (file_nr (assign_order cellgrid ! i), offset (assign_order cellgrid ! i))
      = (file_nr (cellgrid ! i), offset (cellgrid ! i))"
    using assign_order_keeps_key(1) [OF assms] by (simp add: cell_key_def)
  from sort_key_cong_key [OF this] show ?thesis
    by (simp add: lexsort_def assign_order_length)
qed

lemma assign_order_sorted_listing:
  assumes "length cellgrid \<le> 2 ^ 31"
  shows "map order (sort_key cell_key (assign_order cellgrid)) = map int [0..<length cellgrid]"
proof -
  let ?cg = "assign_order cellgrid"
  let ?idx = "lexsort cellgrid"
  have "sort_key cell_key ?cg = take_cells ?cg ?idx"
    using take_cells_lexsort [of ?cg] by (simp add: lexsort_assign_order [OF assms])
  then have "map order (sort_key cell_key ?cg) = map (\<lambda>i. order (?cg ! i)) ?idx"
    by (simp add: take_cells_def comp_def)
  also have "\<dots> = map int [0..<length cellgrid]"
  proof (rule nth_equalityI)
    show "length (map (\<lambda>i. order (?cg ! i)) ?idx) = length (map int [0..<length cellgrid])"
      by (simp add: lexsort_props)
  next
    fix k
    assume "k < length (map (\<lambda>i. order (?cg ! i)) ?idx)"
    then have k: "k < length cellgrid"
      by (simp add: lexsort_props)
    with assign_order_nth [OF assms k]
    show "map (\<lambda>i. order (?cg ! i)) ?idx ! k = map int [0..<length cellgrid] ! k"
      by (simp add: lexsort_props)
  qed
  finally show ?thesis .
qed

lemma assign_order_inverse:
  assumes "length cellgrid \<le> 2 ^ 31" and "i < length cellgrid"
  shows "\<exists>k<length cellgrid. lexsort cellgrid ! k = i \<and> order (assign_order cellgrid ! i) = int k"
proof -
  from lexsort_onto [OF assms(2)] obtain k where
    k: "k < length cellgrid" "lexsort cellgrid ! k = i"
    by blast
  from assign_order_nth [OF assms(1) k(1)] k show ?thesis
    by auto
qed

lemma assign_order_permutation:
  assumes "length cellgrid \<le> 2 ^ 31"
  shows "distinct (map order (assign_order cellgrid))"
    and "set (map order (assign_order cellgrid)) = {0..<int (length cellgrid)}"
proof -
  let ?cg = "assign_order cellgrid"
  let ?n = "length cellgrid"
  have len: "length ?cg = ?n"
    by (rule assign_order_length)
  have as_idx: "map order ?cg = map (\<lambda>i. order (?cg ! i)) [0..<?n]"
    by (rule nth_equalityI) (simp_all add: len)
  have "inj_on (\<lambda>i. order (?cg ! i)) {0..<?n}"
  proof (rule inj_onI)
    fix i i'
    assume "i \<in> {0..<?n}" "i' \<in> {0..<?n}" and eq: "order (?cg ! i) = order (?cg ! i')"
    then have "i < ?n" "i' < ?n"
      by simp_all
    from assign_order_inverse [OF assms this(1)] assign_order_inverse [OF assms this(2)] eq
    show "i = i'"
      by auto
  qed
  then show "distinct (map order ?cg)"
    unfolding as_idx by (simp add: distinct_map)
  show "set (map order ?cg) = {0..<int ?n}"
  proof (intro set_eqI iffI)
    fix x
    assume "x \<in> set (map order ?cg)"
    then obtain i where "i < ?n" "x = order (?cg ! i)"
      unfolding as_idx by auto
    with assign_order_inverse [OF assms this(1)] show "x \<in> {0..<int ?n}"
      by auto
  next
    fix x
    assume "x \<in> {0..<int ?n}"
    then have k: "nat x < ?n" "int (nat x) = x"
      by auto
    from assign_order_nth [OF assms k(1)] k(2)
    have "order (?cg ! (lexsort cellgrid ! nat x)) = x"
      by simp
    moreover have "lexsort cellgrid ! nat x < ?n"
      using k(1) by (rule lexsort_nth_less)
    ultimately show "x \<in> set (map order ?cg)"
      unfolding as_idx by force
  qed
qed

text \<open>
  Claim C6. For an array of at most \<open>2^31\<close> cells (the field \<open>order\<close> is \<open>np.int32\<close>),
  building the index changes nothing but \<open>order\<close>, and \<open>order\<close> is the inverse of the
  permutation \<open>lexsort\<close> returns, the stable sort by file and offset: the cell at position
  \<open>k\<close> of the sort gets the order \<open>k\<close>. So the orders are distinct and fill
  \<open>[0, nr_cells)\<close>, and the cells listed in the order of file and offset carry the orders
  0, 1, 2 and so on. A later call of \<open>prepare_read\<close> leaves the array, and so its orders,
  as they are.
\<close>

theorem assign_order_inverse_permutation:
  assumes "length cellgrid \<le> 2 ^ 31"
  shows "length (assign_order cellgrid) = length cellgrid
       \<and> (\<forall>k<length cellgrid.
             assign_order cellgrid ! (lexsort cellgrid ! k)
               = (cellgrid ! (lexsort cellgrid ! k))\<lparr>order := int k\<rparr>)
       \<and> (\<forall>i<length cellgrid. \<exists>k<length cellgrid.
             lexsort cellgrid ! k = i \<and> order (assign_order cellgrid ! i) = int k)
       \<and> distinct (map order (assign_order cellgrid))
       \<and> set (map order (assign_order cellgrid)) = {0..<int (length cellgrid)}
       \<and> map order (sort_key cell_key (assign_order cellgrid)) = map int [0..<length cellgrid]
       \<and> (\<forall>self ptype msk s reads s' r.
             arrays s r = assign_order cellgrid \<and> r < next_ref s
             \<and> prepare_read self ptype msk s = Inr (reads, s')
             \<longrightarrow> arrays s' r = assign_order cellgrid)"
proof (intro conjI allI impI)
  show "length (assign_order cellgrid) = length cellgrid"
    by (rule assign_order_length)
next
  fix k
  assume "k < length cellgrid"
  with assms show "assign_order cellgrid ! (lexsort cellgrid ! k)
               = (cellgrid ! (lexsort cellgrid ! k))\<lparr>order := int k\<rparr>"
    by (rule assign_order_nth)
next
  fix i
  assume "i < length cellgrid"
  with assms show "\<exists>k<length cellgrid.
             lexsort cellgrid ! k = i \<and> order (assign_order cellgrid ! i) = int k"
    by (rule assign_order_inverse)
next
  show "distinct (map order (assign_order cellgrid))"
    using assms by (rule assign_order_permutation)
next
  show "set (map order (assign_order cellgrid)) = {0..<int (length cellgrid)}"
    using assms by (rule assign_order_permutation)
next
  show "map order (sort_key cell_key (assign_order cellgrid)) = map int [0..<length cellgrid]"
    using assms by (rule assign_order_sorted_listing)
next
  fix self :: "'m swift_cell_grid" and ptype msk s reads s' r
  assume "arrays s r = assign_order cellgrid \<and> r < next_ref s
             \<and> prepare_read self ptype msk s = Inr (reads, s')"
  then show "arrays s' r = assign_order cellgrid"
    using prepare_read_frame [of self ptype msk s reads s' r] by simp
qed

theorem assign_order_inverse_permutation_witness:
  "length [demo_cell 3 5 1 0, demo_cell 3 7 0 0, demo_cell 3 2 1 0, demo_cell 3 7 0 0] \<le> 2 ^ 31
   \<and> lexsort [demo_cell 3 5 1 0, demo_cell 3 7 0 0, demo_cell 3 2 1 0, demo_cell 3 7 0 0]
       = [1, 3, 2, 0]
   \<and> map order
        (assign_order [demo_cell 3 5 1 0, demo_cell 3 7 0 0, demo_cell 3 2 1 0, demo_cell 3 7 0 0])
       = [3, 0, 2, 1]
   \<and> map order (sort_key cell_key
        (assign_order [demo_cell 3 5 1 0, demo_cell 3 7 0 0, demo_cell 3 2 1 0, demo_cell 3 7 0 0]))
       = [0, 1, 2, 3]
   \<and> distinct (map order
        (assign_order [demo_cell 3 5 1 0, demo_cell 3 7 0 0, demo_cell 3 2 1 0, demo_cell 3 7 0 0]))"
proof -
  let ?cg = "[demo_cell 3 5 1 0, demo_cell 3 7 0 0, demo_cell 3 2 1 0, demo_cell 3 7 0 0]"
  have n: "length ?cg \<le> 2 ^ 31"
    by simp
  have idx: "lexsort ?cg = [1, 3, 2, 0]"
    by code_simp
  have ord: "map order (assign_order ?cg) = [3, 0, 2, 1]"
    by code_simp
  from assign_order_inverse_permutation [OF n]
  have "map order (sort_key cell_key (assign_order ?cg)) = map int [0..<length ?cg]"
    and "distinct (map order (assign_order ?cg))"
    by blast+
  with n idx ord show ?thesis
    by simp
qed

section \<open>Properties of the region mask\<close>












section \<open>Properties of the dataset cache\<close>

lemma open_dataset_log:
  assumes "open_dataset fs (self, events) fname dname = Inr (handle, self', events')"
  shows "\<exists>new. events' = events @ new \<and> (\<forall>g. FileClose g \<notin> set new)"
  using assms
  by (auto simp: open_dataset_def split: if_splits option.splits)

lemma open_all_log:
  "open_all fs (self, events) requests = Inr (self', events') \<Longrightarrow>
     \<exists>new. events' = events @ new \<and> (\<forall>g. FileClose g \<notin> set new)"
proof (induction requests arbitrary: self events)
  case Nil
  then show ?case by simp
next
  case (Cons request requests)
  obtain fname dname where r: "request = (fname, dname)"
    by (cases request)
  from Cons.prems r obtain handle self1 events1 where
    first: "open_dataset fs (self, events) fname dname = Inr (handle, self1, events1)"
    and rest: "open_all fs (self1, events1) requests = Inr (self', events')"
    by (auto split: sum.splits)
  from open_dataset_log [OF first] obtain new1 where
    n1: "events1 = events @ new1" "\<forall>g. FileClose g \<notin> set new1"
    by blast
  from Cons.IH [OF rest] obtain new2 where
    n2: "events' = events1 @ new2" "\<forall>g. FileClose g \<notin> set new2"
    by blast
  from n1 n2 have "events' = events @ (new1 @ new2)" "\<forall>g. FileClose g \<notin> set (new1 @ new2)"
    by simp_all
  then show ?case
    by blast
qed

lemma open_dataset_again:
  assumes "open_dataset fs st fname dname = Inr (handle, st')"
  shows "open_dataset fs st' fname dname = Inr (handle, st')"
  using assms
  by (cases st) (auto simp: open_dataset_def split: if_splits option.splits)

text \<open>
  Claim C5, as the code has it. A request for a file that is not the cached one opens the
  new file and resolves the dataset, and the cache then holds the new handles; a request
  for another dataset of the cached file only resolves the dataset; a request for the
  cached file and dataset does nothing. No sequence of requests ever closes a file: the
  handle of the previous file is dropped, not closed. Only \<open>close\<close> closes a file, the
  one the cache holds.
\<close>

theorem open_dataset_events:
  assumes "fs fname = Some datasets" and "datasets dname = Some rows"
  shows "(Some fname \<noteq> file_name self \<longrightarrow>
            open_dataset fs (self, events) fname dname
              = Inr (Some (fname, dname),
                     self\<lparr>infile := Some fname, file_name := Some fname,
                          dataset_name := Some dname, dataset := Some (fname, dname)\<rparr>,
                     events @ [FileOpen fname, DatasetLookup fname dname]))
       \<and> (file_name self = Some fname \<and> infile self = Some fname \<and> dataset_name self \<noteq> Some dname \<longrightarrow>
            open_dataset fs (self, events) fname dname
              = Inr (Some (fname, dname),
                     self\<lparr>dataset := Some (fname, dname), dataset_name := Some dname\<rparr>,
                     events @ [DatasetLookup fname dname]))
       \<and> (file_name self = Some fname \<and> dataset_name self = Some dname \<longrightarrow>
            open_dataset fs (self, events) fname dname = Inr (dataset self, self, events))
       \<and> (\<forall>requests self' events'.
            open_all fs (self, events) requests = Inr (self', events') \<longrightarrow>
              (\<exists>new. events' = events @ new \<and> (\<forall>g. FileClose g \<notin> set new)))
       \<and> (\<forall>g. infile self = Some g \<longrightarrow>
            close (self, events)
              = (self\<lparr>dataset := None, dataset_name := None, file_name := None\<rparr>,
                 events @ [FileClose g]))"
proof (intro conjI impI allI)
  assume "Some fname \<noteq> file_name self"
  with assms show "open_dataset fs (self, events) fname dname
              = Inr (Some (fname, dname),
                     self\<lparr>infile := Some fname, file_name := Some fname,
                          dataset_name := Some dname, dataset := Some (fname, dname)\<rparr>,
                     events @ [FileOpen fname, DatasetLookup fname dname])"
    by (simp add: open_dataset_def)
next
  assume "file_name self = Some fname \<and> infile self = Some fname \<and> dataset_name self \<noteq> Some dname"
  with assms show "open_dataset fs (self, events) fname dname
              = Inr (Some (fname, dname),
                     self\<lparr>dataset := Some (fname, dname), dataset_name := Some dname\<rparr>,
                     events @ [DatasetLookup fname dname])"
    by (auto simp: open_dataset_def)
next
  assume "file_name self = Some fname \<and> dataset_name self = Some dname"
  then show "open_dataset fs (self, events) fname dname = Inr (dataset self, self, events)"
    by (simp add: open_dataset_def)
next
  fix requests self' events'
  assume "open_all fs (self, events) requests = Inr (self', events')"
  then show "\<exists>new. events' = events @ new \<and> (\<forall>g. FileClose g \<notin> set new)"
    by (rule open_all_log)
next
  fix g
  assume "infile self = Some g"
  then show "close (self, events)
      = (self\<lparr>dataset := None, dataset_name := None, file_name := None\<rparr>,
         events @ [FileClose g])"
    by (simp add: close_def)
qed

theorem open_dataset_events_witness:
  "demo_archive ''snap.1.hdf5''
     = Some [''PartType0/Coordinates'' \<mapsto> [30, 31, 32, 33, 34, 35, 36, 37]]
   \<and> [''PartType0/Coordinates'' \<mapsto> [30, 31, 32, 33, 34, 35, 36, 37 :: int]] ''PartType0/Coordinates''
       = Some [30, 31, 32, 33, 34, 35, 36, 37]
   \<and> Some ''snap.1.hdf5''
       \<noteq> file_name \<lparr>file_name = Some ''snap.0.hdf5'', infile = Some ''snap.0.hdf5'',
            dataset_name = Some ''PartType0/Coordinates'',
            dataset = Some (''snap.0.hdf5'', ''PartType0/Coordinates'')\<rparr>
   \<and> open_dataset demo_archive
        (\<lparr>file_name = Some ''snap.0.hdf5'', infile = Some ''snap.0.hdf5'',
           dataset_name = Some ''PartType0/Coordinates'',
           dataset = Some (''snap.0.hdf5'', ''PartType0/Coordinates'')\<rparr>,
         [FileOpen ''snap.0.hdf5'', DatasetLookup ''snap.0.hdf5'' ''PartType0/Coordinates''])
        ''snap.1.hdf5'' ''PartType0/Coordinates''
       = Inr (Some (''snap.1.hdf5'', ''PartType0/Coordinates''),
              \<lparr>file_name = Some ''snap.1.hdf5'', infile = Some ''snap.1.hdf5'',
                dataset_name = Some ''PartType0/Coordinates'',
                dataset = Some (''snap.1.hdf5'', ''PartType0/Coordinates'')\<rparr>,
              [FileOpen ''snap.0.hdf5'', DatasetLookup ''snap.0.hdf5'' ''PartType0/Coordinates'',
               FileOpen ''snap.1.hdf5'', DatasetLookup ''snap.1.hdf5'' ''PartType0/Coordinates''])"
proof -
  let ?ds = "[''PartType0/Coordinates'' \<mapsto> [30, 31, 32, 33, 34, 35, 36, 37 :: int]]"
  let ?self = "\<lparr>file_name = Some ''snap.0.hdf5'', infile = Some ''snap.0.hdf5'',
            dataset_name = Some ''PartType0/Coordinates'',
            dataset = Some (''snap.0.hdf5'', ''PartType0/Coordinates'')\<rparr>"
  have f: "demo_archive ''snap.1.hdf5'' = Some ?ds"
    by (simp add: demo_archive_def)
  have d: "?ds ''PartType0/Coordinates'' = Some [30, 31, 32, 33, 34, 35, 36, 37]"
    by simp
  have n: "Some ''snap.1.hdf5'' \<noteq> file_name ?self"
    by simp
  note t = open_dataset_events [where fs = demo_archive and fname = "''snap.1.hdf5''"
      and datasets = ?ds and dname = "''PartType0/Coordinates''"
      and rows = "[30, 31, 32, 33, 34, 35, 36, 37]" and self = ?self
      and events = "[FileOpen ''snap.0.hdf5'', DatasetLookup ''snap.0.hdf5'' ''PartType0/Coordinates'']"]
  from t [OF f d, THEN conjunct1, rule_format, OF n] f d n
  show ?thesis
    by simp
qed

text \<open>
  The claim as the specification states it fails: after a request for the first file, a
  request for the second file opens it, and the log holds no event that closes the first.
\<close>

theorem open_dataset_close_counterexample:
  "open_all demo_archive (new_cache, [])
      [(''snap.0.hdf5'', ''PartType0/Coordinates''), (''snap.1.hdf5'', ''PartType0/Coordinates'')]
     = Inr (\<lparr>file_name = Some ''snap.1.hdf5'', infile = Some ''snap.1.hdf5'',
              dataset_name = Some ''PartType0/Coordinates'',
              dataset = Some (''snap.1.hdf5'', ''PartType0/Coordinates'')\<rparr>,
            [FileOpen ''snap.0.hdf5'', DatasetLookup ''snap.0.hdf5'' ''PartType0/Coordinates'',
             FileOpen ''snap.1.hdf5'', DatasetLookup ''snap.1.hdf5'' ''PartType0/Coordinates''])
   \<and> FileClose ''snap.0.hdf5''
       \<notin> set [FileOpen ''snap.0.hdf5'', DatasetLookup ''snap.0.hdf5'' ''PartType0/Coordinates'',
                FileOpen ''snap.1.hdf5'', DatasetLookup ''snap.1.hdf5'' ''PartType0/Coordinates'']"
  by (simp add: open_dataset_def new_cache_def demo_archive_def)

section \<open>Properties of a read task\<close>

lemma slice_range_bound: "slice_range start stop n = (a, c) \<Longrightarrow> a + c \<le> n"
  by (auto simp: slice_range_def Let_def min_def max_def split: if_splits)

lemma slice_range_inside:
  assumes "slice_range start stop n = (a, c)" and "0 \<le> start" and "0 \<le> stop"
    and "a \<le> i" and "i < a + c"
  shows "start \<le> int i \<and> int i < stop"
  using assms by (auto simp: slice_range_def Let_def min_def max_def split: if_splits)

text \<open>What \<open>read_direct\<close> writes: the rows before and after the selection stay.\<close>

lemma read_direct_shape:
  assumes "read_direct src dest source_sel dest_sel = Inr dest'"
  shows "\<exists>d0 dn rows. slice_range (fst dest_sel) (snd dest_sel) (length dest) = (d0, dn)
           \<and> length rows = dn \<and> d0 + dn \<le> length dest
           \<and> dest' = take d0 dest @ rows @ drop (d0 + dn) dest
           \<and> (\<forall>other. length other = length dest \<longrightarrow>
                 read_direct src other source_sel dest_sel
                   = Inr (take d0 other @ rows @ drop (d0 + dn) other))"
proof -
  obtain s0 sn where s: "slice_range (fst source_sel) (snd source_sel) (length src) = (s0, sn)"
    by (cases "slice_range (fst source_sel) (snd source_sel) (length src)")
  obtain d0 dn where d: "slice_range (fst dest_sel) (snd dest_sel) (length dest) = (d0, dn)"
    by (cases "slice_range (fst dest_sel) (snd dest_sel) (length dest)")
  from slice_range_bound [OF s] have sb: "s0 + sn \<le> length src" .
  from slice_range_bound [OF d] have db: "d0 + dn \<le> length dest" .
  show ?thesis
  proof (cases "sn = dn")
    case True
    let ?rows = "take sn (drop s0 src)"
    have "length ?rows = dn"
      using sb True by simp
    moreover have "dest' = take d0 dest @ ?rows @ drop (d0 + dn) dest"
      using assms s d True by (simp add: read_direct_def)
    moreover have "read_direct src other source_sel dest_sel
        = Inr (take d0 other @ ?rows @ drop (d0 + dn) other)"
      if "length other = length dest" for other
      using s d True that by (simp add: read_direct_def)
    ultimately show ?thesis
      using d db by blast
  next
    case False
    with assms s d have one: "sn = 1"
      by (simp add: read_direct_def split: if_splits)
    let ?rows = "replicate dn (src ! s0)"
    have "length ?rows = dn"
      by simp
    moreover have "dest' = take d0 dest @ ?rows @ drop (d0 + dn) dest"
      using assms s d False one by (simp add: read_direct_def)
    moreover have "read_direct src other source_sel dest_sel
        = Inr (take d0 other @ ?rows @ drop (d0 + dn) other)"
      if "length other = length dest" for other
      using s d False one that by (simp add: read_direct_def)
    ultimately show ?thesis
      using d db by blast
  qed
qed

lemma read_direct_length:
  assumes "read_direct src dest source_sel dest_sel = Inr dest'"
  shows "length dest' = length dest"
proof -
  from read_direct_shape [OF assms] obtain d0 dn rows where
    "length rows = dn" "d0 + dn \<le> length dest"
    "dest' = take d0 dest @ rows @ drop (d0 + dn) dest"
    by blast
  then show ?thesis
    by simp
qed

lemma read_direct_again:
  assumes "read_direct src dest source_sel dest_sel = Inr dest'"
  shows "read_direct src dest' source_sel dest_sel = Inr dest'"
proof -
  from read_direct_shape [OF assms] obtain d0 dn rows where
    r: "length rows = dn" "d0 + dn \<le> length dest"
      "dest' = take d0 dest @ rows @ drop (d0 + dn) dest"
    and again: "\<forall>other. length other = length dest \<longrightarrow>
                 read_direct src other source_sel dest_sel
                   = Inr (take d0 other @ rows @ drop (d0 + dn) other)"
    by blast
  from r have "length dest' = length dest"
    by simp
  with again have "read_direct src dest' source_sel dest_sel
      = Inr (take d0 dest' @ rows @ drop (d0 + dn) dest')"
    by simp
  moreover have "take d0 dest' = take d0 dest"
    using r by simp
  moreover have "drop (d0 + dn) dest' = drop (d0 + dn) dest"
    using r by simp
  ultimately show ?thesis
    using r(3) by simp
qed

lemma read_direct_outside:
  assumes "read_direct src dest source_sel (start, stop) = Inr dest'"
    and "0 \<le> start" and "0 \<le> stop"
    and "i < length dest" and "\<not> (start \<le> int i \<and> int i < stop)"
  shows "dest' ! i = dest ! i"
proof -
  from read_direct_shape [OF assms(1)] obtain d0 dn rows where
    d: "slice_range start stop (length dest) = (d0, dn)"
    and r: "length rows = dn" "d0 + dn \<le> length dest"
      "dest' = take d0 dest @ rows @ drop (d0 + dn) dest"
    by auto
  from slice_range_inside [OF d assms(2,3), of i] assms(5)
  consider "i < d0" | "d0 + dn \<le> i"
    by fastforce
  then show ?thesis
  proof cases
    case 1
    with r assms(4) show ?thesis
      by (simp add: nth_append)
  next
    case 2
    then have past: "\<not> i < d0" "\<not> i - d0 < dn" "d0 + dn + (i - d0 - dn) = i"
      by simp_all
    have "dest' ! i = (rows @ drop (d0 + dn) dest) ! (i - d0)"
      using r past(1) by (simp add: nth_append)
    also have "\<dots> = drop (d0 + dn) dest ! (i - d0 - dn)"
      using r(1) past(2) by (simp add: nth_append)
    also have "\<dots> = dest ! i"
      using r(2) past(3) by simp
    finally show ?thesis .
  qed
qed

lemma call_task_Inr:
  assumes "call_task fs (ReadTask fname ptype dset file_offset mem_offset n) data st
             = Inr (data1, st1)"
  shows "\<exists>f d src buffers dest dest'.
           open_dataset fs st fname (ptype @ ''/'' @ dset) = Inr (Some (f, d), st1)
         \<and> Option.bind (fs f) (\<lambda>datasets. datasets d) = Some src
         \<and> data ptype = Some buffers \<and> buffers dset = Some dest
         \<and> read_direct src dest (file_offset, add64 file_offset n) (mem_offset, add64 mem_offset n)
             = Inr dest'
         \<and> data1 = data(ptype \<mapsto> buffers(dset \<mapsto> dest'))"
  using assms
  by (auto simp: call_task_def split: sum.splits option.splits prod.splits)

text \<open>
  Claim C9. When a task has run, running it again on the buffers and the cache it has left
  succeeds and changes nothing: neither the buffers nor the cache nor the log. The first
  run leaves the buffers of the other particle types and the other datasets of its own
  type as they were and keeps the length of its own buffer; for a task with a memory
  offset and a count that are not negative and do not overflow, every row outside
  \<open>[mem_offset, mem_offset + count)\<close> of its buffer is unchanged.
\<close>

theorem call_task_idempotent:
  assumes "call_task fs (ReadTask fname ptype dset file_offset mem_offset n) data st
             = Inr (data1, st1)"
  shows "call_task fs (ReadTask fname ptype dset file_offset mem_offset n) data1 st1
           = Inr (data1, st1)
       \<and> (\<forall>p. p \<noteq> ptype \<longrightarrow> data1 p = data p)
       \<and> (\<exists>buffers dest dest1.
             data ptype = Some buffers \<and> buffers dset = Some dest
           \<and> data1 ptype = Some (buffers(dset \<mapsto> dest1)) \<and> length dest1 = length dest
           \<and> (0 \<le> mem_offset \<and> 0 \<le> n \<and> mem_offset + n < 2 ^ 63 \<longrightarrow>
                (\<forall>i<length dest.
                   \<not> (mem_offset \<le> int i \<and> int i < mem_offset + n) \<longrightarrow> dest1 ! i = dest ! i)))"
proof -
  from call_task_Inr [OF assms] obtain f d src buffers dest dest' where
    op: "open_dataset fs st fname (ptype @ ''/'' @ dset) = Inr (Some (f, d), st1)"
    and src: "Option.bind (fs f) (\<lambda>datasets. datasets d) = Some src"
    and buf: "data ptype = Some buffers" "buffers dset = Some dest"
    and rd: "read_direct src dest (file_offset, add64 file_offset n) (mem_offset, add64 mem_offset n)
               = Inr dest'"
    and d1: "data1 = data(ptype \<mapsto> buffers(dset \<mapsto> dest'))"
    by blast
  from open_dataset_again [OF op]
  have op2: "open_dataset fs st1 fname (ptype @ ''/'' @ dset) = Inr (Some (f, d), st1)" .
  from read_direct_again [OF rd]
  have rd2: "read_direct src dest' (file_offset, add64 file_offset n) (mem_offset, add64 mem_offset n)
               = Inr dest'" .
  have same: "data1(ptype \<mapsto> (buffers(dset \<mapsto> dest'))(dset \<mapsto> dest')) = data1"
    unfolding d1 by simp
  have again: "call_task fs (ReadTask fname ptype dset file_offset mem_offset n) data1 st1
           = Inr (data1, st1)"
    using op2 src rd2 same by (simp add: call_task_def d1)
  have others: "\<forall>p. p \<noteq> ptype \<longrightarrow> data1 p = data p"
    by (simp add: d1)
  have len: "length dest' = length dest"
    using rd by (rule read_direct_length)
  have frame: "\<forall>i<length dest.
      \<not> (mem_offset \<le> int i \<and> int i < mem_offset + n) \<longrightarrow> dest' ! i = dest ! i"
    if "0 \<le> mem_offset \<and> 0 \<le> n \<and> mem_offset + n < 2 ^ 63"
  proof -
    from that have w: "add64 mem_offset n = mem_offset + n"
      by (simp add: add64_def wrap64_id)
    from that have nn: "0 \<le> mem_offset" "0 \<le> mem_offset + n"
      by simp_all
    from rd have "read_direct src dest (file_offset, add64 file_offset n) (mem_offset, mem_offset + n)
               = Inr dest'"
      by (simp only: w)
    from read_direct_outside [OF this nn] show ?thesis
      by blast
  qed
  have "data1 ptype = Some (buffers(dset \<mapsto> dest'))"
    by (simp add: d1)
  with buf len frame have "\<exists>buffers dest dest1.
             data ptype = Some buffers \<and> buffers dset = Some dest
           \<and> data1 ptype = Some (buffers(dset \<mapsto> dest1)) \<and> length dest1 = length dest
           \<and> (0 \<le> mem_offset \<and> 0 \<le> n \<and> mem_offset + n < 2 ^ 63 \<longrightarrow>
                (\<forall>i<length dest.
                   \<not> (mem_offset \<le> int i \<and> int i < mem_offset + n) \<longrightarrow> dest1 ! i = dest ! i))"
    by blast
  with again others show ?thesis
    by blast
qed

theorem call_task_idempotent_witness:
  "\<exists>data1 st1.
      call_task demo_archive (ReadTask ''snap.0.hdf5'' ''PartType0'' ''Coordinates'' 4 0 8)
        demo_data (new_cache, []) = Inr (data1, st1)
    \<and> call_task demo_archive (ReadTask ''snap.0.hdf5'' ''PartType0'' ''Coordinates'' 4 0 8)
        data1 st1 = Inr (data1, st1)
    \<and> Option.bind (data1 ''PartType0'') (\<lambda>buffers. buffers ''Coordinates'')
        = Some [14, 15, 16, 17, 18, 19, 20, 21, 0, 0, 0, 0]
    \<and> snd st1 = [FileOpen ''snap.0.hdf5'', DatasetLookup ''snap.0.hdf5'' ''PartType0/Coordinates'']"
proof -
  let ?task = "ReadTask ''snap.0.hdf5'' ''PartType0'' ''Coordinates'' 4 0 8"
  let ?data1 = "[''PartType0'' \<mapsto> [''Coordinates'' \<mapsto> [14, 15, 16, 17, 18, 19, 20, 21, 0, 0, 0, 0 :: int]]]"
  let ?st1 = "(\<lparr>file_name = Some ''snap.0.hdf5'', infile = Some ''snap.0.hdf5'',
                 dataset_name = Some ''PartType0/Coordinates'',
                 dataset = Some (''snap.0.hdf5'', ''PartType0/Coordinates'')\<rparr>,
               [FileOpen ''snap.0.hdf5'', DatasetLookup ''snap.0.hdf5'' ''PartType0/Coordinates''])"
  have first: "call_task demo_archive ?task demo_data (new_cache, []) = Inr (?data1, ?st1)"
    by (simp add: call_task_def open_dataset_def new_cache_def demo_archive_def demo_data_def
        read_direct_def slice_range_def add64_def wrap64_def numeral_eq_Suc)
  from call_task_idempotent [OF first]
  have "call_task demo_archive ?task ?data1 ?st1 = Inr (?data1, ?st1)"
    by blast
  with first show ?thesis
    by (intro exI [of _ ?data1] exI [of _ ?st1]) simp
qed

section \<open>The orchestrator on the two small archives\<close>

text \<open>
  Claim C2 against the code. The snapshot metadata of \<open>demo_grid\<close> has the dataset
  \<open>Coordinates\<close> for \<open>PartType0\<close>, and the plan for the mask has one range in each of
  the two files, so the claim asks for two tasks. The test of line 321 looks
  \<open>Coordinates\<close> up among the particle types, does not find it, and no task is made: the
  queue of every rank is empty. The same test at line 353 then sends the allocation to
  \<open>self.extra_metadata\<close>, which this grid does not have.
\<close>

theorem make_tasks_skips_snapshot_datasets:
  "Option.bind (snap_metadata demo_grid ''PartType0'') (\<lambda>datasets. datasets ''Coordinates'') = Some ()
   \<and> map_sum id fst (plan_reads demo_grid [''PartType0''] demo_mask demo_store)
       = Inr [(''PartType0'', [(0, [(4, 0, 8)]), (1, [(0, 8, 4)])])]
   \<and> make_tasks demo_grid [(''PartType0'', [''Coordinates''])]
        [(''PartType0'', [(0, [(4, 0, 8)]), (1, [(0, 8, 4)])])] [0, 1] = Inr []
   \<and> share_tasks ([] :: read_task list) 2 = Inr [[], []]
   \<and> plan_and_share demo_grid [(''PartType0'', [''Coordinates''])] demo_mask 2 0 demo_store
       = Inl AttributeError"
proof (intro conjI)
  show "Option.bind (snap_metadata demo_grid ''PartType0'') (\<lambda>datasets. datasets ''Coordinates'')
      = Some ()"
    by (simp add: demo_grid_def)
  show "map_sum id fst (plan_reads demo_grid [''PartType0''] demo_mask demo_store)
       = Inr [(''PartType0'', [(0, [(4, 0, 8)]), (1, [(0, 8, 4)])])]"
    by code_simp
  show "make_tasks demo_grid [(''PartType0'', [''Coordinates''])]
        [(''PartType0'', [(0, [(4, 0, 8)]), (1, [(0, 8, 4)])])] [0, 1] = Inr []"
    by (simp add: make_tasks_def demo_grid_def)
  show "share_tasks ([] :: read_task list) 2 = Inr [[], []]"
    by code_simp
  show "plan_and_share demo_grid [(''PartType0'', [''Coordinates''])] demo_mask 2 0 demo_store
       = Inl AttributeError"
    by code_simp
qed

lemma demo_grid2_plans:
  "\<exists>s'. plan_reads demo_grid2 [''PartType0'', ''PartType4''] demo_mask demo_store2
          = Inr ([(''PartType0'', [(0, [(4, 0, 8)]), (1, [(0, 8, 4)])]), (''PartType4'', [])], s')"
proof -
  let ?gas = "[demo_cell 0 0 0 1, demo_cell 4 4 0 2, demo_cell 4 8 0 3, demo_cell 4 0 1 6]"
  let ?stars = "[demo_cell 0 0 0 1, demo_cell 0 0 0 2, demo_cell 0 0 0 3, demo_cell 0 0 1 6]"
  have c0: "cell demo_grid2 ''PartType0'' = Some 0" and c4: "cell demo_grid2 ''PartType4'' = Some 1"
    by (simp_all add: demo_grid2_def)
  have b0: "boolean_index (dimension demo_grid2) (arrays demo_store2 0) demo_mask = Inr ?gas"
    by (simp add: boolean_index_def demo_grid2_def demo_store2_def demo_mask_def demo_cells_def
        mask_shape_def)
  have p0: "planned_cells ?gas = [demo_cell 8 4 0 3, demo_cell 4 0 1 6]"
    by (simp add: planned_cells_def take_cells_lexsort merge_adjacent_def merge_loop_eq_walk
        discard_empty_def demo_cell_def cell_key_def mergeable_def add64_def wrap64_def max_size_def)
  have r0: "map (\<lambda>f. (f, ranges_of_file f
                     (zip (map file_nr [demo_cell 8 4 0 3, demo_cell 4 0 1 6])
                        (wrapped_ranges 0 [demo_cell 8 4 0 3, demo_cell 4 0 1 6]))))
                   (np_unique (map file_nr [demo_cell 8 4 0 3, demo_cell 4 0 1 6]))
      = [(0, [(4, 0, 8)]), (1, [(0, 8, 4)])]"
    by (simp add: np_unique_def ranges_of_file_def demo_cell_def add64_def wrap64_def)
  from prepare_read_result [OF c0 b0] obtain s1 where
    run0: "prepare_read demo_grid2 ''PartType0'' demo_mask demo_store2
             = Inr ([(0, [(4, 0, 8)]), (1, [(0, 8, 4)])], s1)"
    and keep: "\<forall>a<next_ref demo_store2. arrays s1 a = arrays demo_store2 a"
    unfolding p0 r0 by blast
  from keep have "arrays s1 1 = demo_stars"
    by (simp add: demo_store2_def)
  then have b4: "boolean_index (dimension demo_grid2) (arrays s1 1) demo_mask = Inr ?stars"
    by (simp add: boolean_index_def demo_grid2_def demo_mask_def demo_stars_def mask_shape_def)
  have p4: "planned_cells ?stars = []"
    by (simp add: planned_cells_def take_cells_lexsort merge_adjacent_def merge_loop_eq_walk
        discard_empty_def demo_cell_def)
  from prepare_read_result [OF c4 b4] obtain s2 where
    run4: "prepare_read demo_grid2 ''PartType4'' demo_mask s1 = Inr ([], s2)"
    unfolding p4 by (auto simp: np_unique_def)
  from run0 run4 show ?thesis
    by simp
qed

text \<open>
  Claim C4 against the code. In \<open>demo_grid2\<close> the selected cells hold particles of
  \<open>PartType0\<close> in both files and none of \<open>PartType4\<close>, so the plan of \<open>PartType4\<close> is
  the empty dictionary while the union of the files is 0 and 1. The loop of lines 309 to
  312 looks the file 0 up in the plan of \<open>PartType4\<close> and raises \<open>KeyError\<close>: no
  count is computed.
\<close>

theorem count_particles_raises_key_error:
  "map_sum id fst (plan_reads demo_grid2 [''PartType0'', ''PartType4''] demo_mask demo_store2)
       = Inr [(''PartType0'', [(0, [(4, 0, 8)]), (1, [(0, 8, 4)])]), (''PartType4'', [])]
   \<and> union_file_nrs [(''PartType0'', [(0, [(4, 0, 8)]), (1, [(0, 8, 4)])]), (''PartType4'', [])]
       = [0, 1]
   \<and> count_particles [(''PartType0'', [(0, [(4, 0, 8)]), (1, [(0, 8, 4)])]), (''PartType4'', [])]
        [0, 1] [''PartType0'', ''PartType4''] = Inl KeyError
   \<and> plan_and_share demo_grid2
        [(''PartType0'', [''Coordinates'']), (''PartType4'', [''Coordinates''])]
        demo_mask 2 0 demo_store2 = Inl KeyError"
proof -
  let ?plans = "[(''PartType0'', [(0, [(4, 0, 8)]), (1, [(0, 8, 4)])]), (''PartType4'', [])]"
  from demo_grid2_plans obtain s' where
    plans: "plan_reads demo_grid2 [''PartType0'', ''PartType4''] demo_mask demo_store2
              = Inr (?plans, s')"
    by blast
  have files: "union_file_nrs ?plans = [0, 1]"
    by (simp add: union_file_nrs_def np_unique_def)
  have raise: "count_particles ?plans [0, 1] [''PartType0'', ''PartType4''] = Inl KeyError"
    by (simp add: count_particles_def dict_get_def add64_def wrap64_def)
  have "plan_and_share demo_grid2
        [(''PartType0'', [''Coordinates'']), (''PartType4'', [''Coordinates''])]
        demo_mask 2 0 demo_store2 = Inl KeyError"
    using plans by (simp add: plan_and_share_def files raise)
  with plans files raise show ?thesis
    by simp
qed


end
